theory Spec2Isabelle
  imports Complex_Main "HOL-Library.Word"
begin

unbundle bit_operations_syntax

section \<open>Machine numbers\<close>

text \<open>
  The header \<^verbatim>\<open>SLICHashTable.hpp\<close> computes with \<^verbatim>\<open>int\<close> (32 bits),
  \<^verbatim>\<open>signed long\<close> and \<^verbatim>\<open>unsigned long\<close> (64 bits, LP64) and \<^verbatim>\<open>float\<close> (IEEE-754 binary32,
  round to nearest, ties to even). Integers are words, so an addition that overflows
  wraps around, as it does on the targets; a finite \<^verbatim>\<open>float\<close> is the rational number it
  denotes, and every float operation is the exact operation followed by \<open>float_round\<close>.
\<close>

type_synonym c_int = "32 word"

type_synonym c_long = "64 word"

type_synonym c_ulong = "64 word"

type_synonym uchar = "8 word"

type_synonym c_float = rat

text \<open>The number of binary digits of a positive integer.\<close>

function bit_length :: "int \<Rightarrow> nat" where
  "bit_length n = (if n \<le> 0 then 0 else Suc (bit_length (n div 2)))"
  by pat_completeness auto

termination
  by (relation "measure nat") auto

declare bit_length.simps [simp del]

definition pow2 :: "int \<Rightarrow> rat" where
  "pow2 e = (if 0 \<le> e then 2 ^ nat e else 1 / 2 ^ nat (- e))"

text \<open>
  The binary exponent \<open>\<lfloor>log\<^sub>2 \<bar>q\<bar>\<rfloor>\<close> of a non-zero rational: \<open>2\<^sup>e \<le> \<bar>q\<bar> < 2\<^sup>e\<^sup>+\<^sup>1\<close>
  (lemmas \<open>float_exponent_lower\<close> and \<open>float_exponent_upper\<close>).
\<close>

definition float_exponent :: "rat \<Rightarrow> int" where
  "float_exponent q =
     (if 1 \<le> \<bar>q\<bar> then int (bit_length \<lfloor>\<bar>q\<bar>\<rfloor>) - 1
      else - int (bit_length (\<lceil>1 / \<bar>q\<bar>\<rceil> - 1)))"

definition round_half_even :: "rat \<Rightarrow> int" where
  "round_half_even m =
     (let f = \<lfloor>m\<rfloor>; r = m - of_int f
      in if r < 1 / 2 then f else if 1 / 2 < r then f + 1 else if even f then f else f + 1)"

text \<open>
  Rounding to binary32: 24 significant bits above the smallest normal exponent \<open>-126\<close>,
  multiples of \<open>2\<^sup>-\<^sup>1\<^sup>4\<^sup>9\<close> below it. The operands of \<open>calculate_hash_key\<close> are integers of
  at most 64 bits divided by integers of at most 64 bits, so no result reaches the
  overflow threshold \<open>2\<^sup>1\<^sup>2\<^sup>8\<close> and no infinity or NaN arises
  (lemma \<open>calculate_hash_key_floats_finite\<close>); the rounding has no case for them.
\<close>

definition float_round :: "rat \<Rightarrow> c_float" where
  "float_round q =
     (if q = 0 then 0
      else let u = pow2 (max (float_exponent q) (- 126) - 23)
           in of_int (round_half_even (q / u)) * u)"

definition float_of_int :: "int \<Rightarrow> c_float" where
  "float_of_int i = float_round (of_int i)"

definition float_div :: "c_float \<Rightarrow> c_float \<Rightarrow> c_float" where
  "float_div x y = float_round (x / y)"

text \<open>
  The conversion \<^verbatim>\<open>(int)f\<close> truncates towards zero. For a value outside the range of
  \<^verbatim>\<open>int\<close> the language leaves the result open; \<open>oor\<close> is the value the target yields there
  (x86 \<^verbatim>\<open>cvttss2si\<close>: \<open>-2\<^sup>3\<^sup>1\<close> always; AArch64 \<^verbatim>\<open>fcvtzs\<close>: the nearest bound).
\<close>

definition truncate :: "rat \<Rightarrow> int" where
  "truncate f = (if 0 \<le> f then \<lfloor>f\<rfloor> else \<lceil>f\<rceil>)"

definition float_to_int :: "(c_float \<Rightarrow> c_int) \<Rightarrow> c_float \<Rightarrow> c_int" where
  "float_to_int oor f =
     (let t = truncate f
      in if - (2 ^ 31) \<le> t \<and> t < 2 ^ 31 then word_of_int t else oor f)"

definition x86_oor :: "c_float \<Rightarrow> c_int" where
  "x86_oor f = word_of_int (- (2 ^ 31))"

text \<open>\<^verbatim>\<open>std::min\<close> and \<^verbatim>\<open>std::max\<close> on \<^verbatim>\<open>int\<close>: the first argument unless the comparison says otherwise.\<close>

definition std_min :: "c_int \<Rightarrow> c_int \<Rightarrow> c_int" where
  "std_min a b = (if sint b < sint a then b else a)"

definition std_max :: "c_int \<Rightarrow> c_int \<Rightarrow> c_int" where
  "std_max a b = (if sint a < sint b then b else a)"

section \<open>The region record and the bucket key\<close>

text \<open>
  \<^verbatim>\<open>HashKey\<close>; \<open>original_image\<close> is the address of the owning image, \<open>0\<close> the null pointer.
  The constants of \<^verbatim>\<open>SLICHashTable\<close> follow; they are positive, where the division of
  words is the division of \<^verbatim>\<open>int\<close>.
\<close>

record HashKey =
  l_tot :: c_long
  a_tot :: c_long
  b_tot :: c_long
  x_range :: "c_int \<times> c_int"
  y_range :: "c_int \<times> c_int"
  original_image :: nat
  pixel_count :: c_ulong

definition lab_buckets :: c_int where "lab_buckets = 16"

definition lab_bucket_size :: c_int where "lab_bucket_size = 256 div lab_buckets"

definition max_img_w :: c_int where "max_img_w = 3840"

definition max_img_h :: c_int where "max_img_h = 2160"

definition x_buckets :: c_int where "x_buckets = 10"

definition y_buckets :: c_int where "y_buckets = 10"

definition x_bucket_size :: c_int where "x_bucket_size = max_img_w div x_buckets"

definition y_bucket_size :: c_int where "y_bucket_size = max_img_h div y_buckets"

definition dims :: "c_int list" where
  "dims = [lab_buckets, lab_buckets, lab_buckets, x_buckets, y_buckets]"

definition calculate_hash_key :: "(c_float \<Rightarrow> c_int) \<Rightarrow> HashKey \<Rightarrow> c_int" where
  "calculate_hash_key oor key =
     (if pixel_count key = 0 then - 1
      else
        let l_avg = float_div (float_of_int (sint (l_tot key))) (float_of_int (uint (pixel_count key)));
            a_avg = float_div (float_of_int (sint (a_tot key))) (float_of_int (uint (pixel_count key)));
            b_avg = float_div (float_of_int (sint (b_tot key))) (float_of_int (uint (pixel_count key)));
            x_center = float_div (float_of_int (sint (fst (x_range key) + snd (x_range key)))) 2;
            y_center = float_div (float_of_int (sint (fst (y_range key) + snd (y_range key)))) 2;
            l_bucket = float_to_int oor (float_div l_avg (float_of_int (sint lab_bucket_size)));
            a_bucket = float_to_int oor (float_div a_avg (float_of_int (sint lab_bucket_size)));
            b_bucket = float_to_int oor (float_div b_avg (float_of_int (sint lab_bucket_size)));
            x_bucket = float_to_int oor (float_div x_center (float_of_int (sint x_bucket_size)));
            y_bucket = float_to_int oor (float_div y_center (float_of_int (sint y_bucket_size)));
            l_bucket = std_max 0 (std_min l_bucket (dims ! 0 - 1));
            a_bucket = std_max 0 (std_min a_bucket (dims ! 1 - 1));
            b_bucket = std_max 0 (std_min b_bucket (dims ! 2 - 1));
            x_bucket = std_max 0 (std_min x_bucket (dims ! 3 - 1));
            y_bucket = std_max 0 (std_min y_bucket (dims ! 4 - 1));
            hash_key = l_bucket;
            hash_key = hash_key * dims ! 1 + a_bucket;
            hash_key = hash_key * dims ! 2 + b_bucket;
            hash_key = hash_key * dims ! 3 + x_bucket;
            hash_key = hash_key * dims ! 4 + y_bucket
        in hash_key)"

section \<open>The index and the aggregation pass\<close>

text \<open>
  \<^verbatim>\<open>cv::Mat\<close>: the two dimensions are \<^verbatim>\<open>int\<close>s, \<open>elem_at\<close> (the accessor \<^verbatim>\<open>at\<close>) reads the
  element of a row and a column; a read outside the matrix is not modelled, \<open>elem_at\<close> is
  total. \<^verbatim>\<open>cv::Vec3b\<close> is three unsigned bytes.
\<close>

record 'a Mat =
  rows :: c_int
  cols :: c_int
  elem_at :: "nat \<Rightarrow> nat \<Rightarrow> 'a"

type_synonym Vec3b = "uchar \<times> uchar \<times> uchar"

text \<open>\<^verbatim>\<open>std::unordered_map<int, std::vector<HashKey>> hashTable\<close>.\<close>

type_synonym hash_table = "c_int \<rightharpoonup> HashKey list"

definition bucket :: "hash_table \<Rightarrow> c_int \<Rightarrow> HashKey list" where
  "bucket T k = (case T k of None \<Rightarrow> [] | Some v \<Rightarrow> v)"

text \<open>\<^verbatim>\<open>hashTable[key].push_back(curr)\<close>: a missing bucket is created empty first.\<close>

definition push_back :: "hash_table \<Rightarrow> c_int \<Rightarrow> HashKey \<Rightarrow> hash_table" where
  "push_back T k r = T(k \<mapsto> bucket T k @ [r])"

text \<open>A record as \<^verbatim>\<open>calloc\<close> leaves it: every field zero.\<close>

definition zero_key :: HashKey where
  "zero_key = \<lparr>l_tot = 0, a_tot = 0, b_tot = 0, x_range = (0, 0), y_range = (0, 0),
     original_image = 0, pixel_count = 0\<rparr>"

text \<open>
  \<^verbatim>\<open>superpixels[sp]\<close> and \<^verbatim>\<open>pixel_count[sp]\<close> (lines 82 and 106) are arithmetic on raw
  pointers: the label is compared with no bound. A pointer is modelled by what lies at
  every index from it, the negative ones and those past the end of its array included: a
  function on the integers. \<open>array_ptr xs outside\<close> points to the first element of an array
  that holds \<open>xs\<close>, in a memory that holds \<open>outside i\<close> at an index \<open>i\<close> outside the array.
  C++ gives an access outside the array no meaning; here it reads and writes what lies
  there, and the loop goes on, as the compiled code does.
\<close>

definition array_ptr :: "'a list \<Rightarrow> (int \<Rightarrow> 'a) \<Rightarrow> int \<Rightarrow> 'a" where
  "array_ptr xs outside i = (if 0 \<le> i \<and> i < int (length xs) then xs ! nat i else outside i)"

text \<open>
  Lines 84 to 104, the update of the record \<^verbatim>\<open>curr\<close> of the cell's region by the pixel
  at \<open>(row, col)\<close>; \<open>main\<close> repeats the same lines for the query image.
\<close>

definition accumulate :: "nat \<Rightarrow> Vec3b Mat \<Rightarrow> nat \<Rightarrow> nat \<Rightarrow> HashKey \<Rightarrow> HashKey" where
  "accumulate img_ptr input_image row col curr0 =
     (let lab_pixel = elem_at input_image row col;
          c = (word_of_nat col :: c_int);
          r = (word_of_nat row :: c_int);
          curr = curr0;
          curr = curr\<lparr>l_tot := l_tot curr + ucast (fst lab_pixel)\<rparr>;
          curr = curr\<lparr>a_tot := a_tot curr + ucast (fst (snd lab_pixel))\<rparr>;
          curr = curr\<lparr>b_tot := b_tot curr + ucast (snd (snd lab_pixel))\<rparr>;
          curr =
            (if pixel_count curr = 0
             then curr\<lparr>x_range := (c, c), y_range := (r, r), original_image := img_ptr\<rparr>
             else
               curr\<lparr>x_range :=
                      (if sint c < sint (fst (x_range curr)) then c else fst (x_range curr),
                       if sint (snd (x_range curr)) < sint c then c else snd (x_range curr)),
                    y_range :=
                      (if sint r < sint (fst (y_range curr)) then r else fst (y_range curr),
                       if sint (snd (y_range curr)) < sint r then r else snd (y_range curr))\<rparr>);
          curr = curr\<lparr>pixel_count := pixel_count curr + 1\<rparr>
      in curr)"

text \<open>
  The body of the two loops, lines 80 to 111, for the cell \<open>(row, col)\<close>: the record at the
  index the label gives is updated in place, then a copy of it is inserted once its count
  equals the count at the same index of \<^verbatim>\<open>pixel_count\<close> and its key is not the sentinel. The
  label indexes both pointers as it is read. The memory behind \<^verbatim>\<open>superpixels\<close>, the memory
  behind \<^verbatim>\<open>pixel_count\<close> and the table are taken to be disjoint: the write to the record
  changes neither of the other two.
\<close>

definition Hash_body ::
  "(c_float \<Rightarrow> c_int) \<Rightarrow> nat \<Rightarrow> Vec3b Mat \<Rightarrow> c_int Mat \<Rightarrow> (int \<Rightarrow> c_ulong) \<Rightarrow> nat \<Rightarrow> nat \<Rightarrow>
     (int \<Rightarrow> HashKey) \<Rightarrow> hash_table \<Rightarrow> (int \<Rightarrow> HashKey) \<times> hash_table" where
  "Hash_body oor img_ptr input_image labels pixel_counts row col superpixels T =
     (let sp = sint (elem_at labels row col);
          curr = accumulate img_ptr input_image row col (superpixels sp);
          T =
            (if pixel_count curr = pixel_counts sp
             then let key = calculate_hash_key oor curr
                  in if key \<noteq> - 1 then push_back T key curr else T
             else T)
      in (superpixels(sp := curr), T))"

text \<open>
  The two loops over a list of cells: every cell is visited, none ends the pass.
\<close>

fun Hash_loop ::
  "(c_float \<Rightarrow> c_int) \<Rightarrow> nat \<Rightarrow> Vec3b Mat \<Rightarrow> c_int Mat \<Rightarrow> (int \<Rightarrow> c_ulong) \<Rightarrow> (nat \<times> nat) list \<Rightarrow>
     (int \<Rightarrow> HashKey) \<Rightarrow> hash_table \<Rightarrow> (int \<Rightarrow> HashKey) \<times> hash_table" where
  "Hash_loop oor img_ptr input_image labels pixel_counts [] superpixels T = (superpixels, T)"
| "Hash_loop oor img_ptr input_image labels pixel_counts (p # ps) superpixels T =
     (case Hash_body oor img_ptr input_image labels pixel_counts (fst p) (snd p) superpixels T of
        (superpixels', T') \<Rightarrow>
          Hash_loop oor img_ptr input_image labels pixel_counts ps superpixels' T')"

text \<open>The cells of the grid in the order of the two nested loops: row by row.\<close>

definition grid_cells :: "'a Mat \<Rightarrow> (nat \<times> nat) list" where
  "grid_cells m = List.product [0 ..< nat (sint (rows m))] [0 ..< nat (sint (cols m))]"

text \<open>
  \<open>Hash\<close>: \<^verbatim>\<open>calloc\<close> gives a block of \<open>superpixel_count\<close> zeroed records, in a memory \<open>heap\<close>
  that holds whatever it holds outside the block; the loops run over the cells; the block
  is freed. \<open>img_ptr\<close> is \<^verbatim>\<open>&input_image\<close>. The function returns \<^verbatim>\<open>void\<close>: what it leaves is
  the table. \<open>Hash_pass\<close> is the state after the cells \<open>ps\<close>.
\<close>

definition Hash_pass ::
  "(c_float \<Rightarrow> c_int) \<Rightarrow> (int \<Rightarrow> HashKey) \<Rightarrow> nat \<Rightarrow> Vec3b Mat \<Rightarrow> c_int Mat \<Rightarrow> c_int \<Rightarrow>
     (int \<Rightarrow> c_ulong) \<Rightarrow> (nat \<times> nat) list \<Rightarrow> hash_table \<Rightarrow> (int \<Rightarrow> HashKey) \<times> hash_table" where
  "Hash_pass oor heap img_ptr input_image labels superpixel_count pixel_counts ps T =
     Hash_loop oor img_ptr input_image labels pixel_counts ps
       (array_ptr (replicate (nat (sint superpixel_count)) zero_key) heap) T"

definition Hash ::
  "(c_float \<Rightarrow> c_int) \<Rightarrow> (int \<Rightarrow> HashKey) \<Rightarrow> nat \<Rightarrow> Vec3b Mat \<Rightarrow> c_int Mat \<Rightarrow> c_int \<Rightarrow>
     (int \<Rightarrow> c_ulong) \<Rightarrow> hash_table \<Rightarrow> hash_table" where
  "Hash oor heap img_ptr input_image labels superpixel_count pixel_counts T =
     snd (Hash_pass oor heap img_ptr input_image labels superpixel_count pixel_counts
            (grid_cells labels) T)"

section \<open>Retrieval\<close>

text \<open>
  \<^verbatim>\<open>std::map<const cv::Mat*, int> match_counts\<close>: the entries in ascending order of the key,
  the order in which the selection loop visits them. \<open>map_incr\<close> is \<^verbatim>\<open>match_counts[p]++\<close>.
\<close>

type_synonym match_map = "(nat \<times> c_int) list"

fun map_incr :: "nat \<Rightarrow> match_map \<Rightarrow> match_map" where
  "map_incr p [] = [(p, 1)]"
| "map_incr p ((k, v) # kvs) =
     (if p = k then (k, v + 1) # kvs
      else if p < k then (p, 1) # (k, v) # kvs
      else (k, v) # map_incr p kvs)"

text \<open>The voting loop, lines 296 to 310.\<close>

definition vote_bucket :: "HashKey list \<Rightarrow> match_map \<Rightarrow> match_map" where
  "vote_bucket matches mc = foldl (\<lambda>mc m. map_incr (original_image m) mc) mc matches"

definition vote_query :: "(c_float \<Rightarrow> c_int) \<Rightarrow> hash_table \<Rightarrow> match_map \<Rightarrow> HashKey \<Rightarrow> match_map" where
  "vote_query oor T mc q =
     (let query_key = calculate_hash_key oor q
      in if query_key = - 1 then mc
         else case T query_key of None \<Rightarrow> mc | Some matches \<Rightarrow> vote_bucket matches mc)"

definition match_counts :: "(c_float \<Rightarrow> c_int) \<Rightarrow> hash_table \<Rightarrow> HashKey list \<Rightarrow> match_map" where
  "match_counts oor T query_superpixels = foldl (vote_query oor T) [] query_superpixels"

text \<open>The selection loop, lines 312 to 320, and what is displayed, lines 326 to 331.\<close>

fun best_match_loop :: "match_map \<Rightarrow> nat \<times> c_int \<Rightarrow> nat \<times> c_int" where
  "best_match_loop [] (best_match_image_ptr, max_matches) = (best_match_image_ptr, max_matches)"
| "best_match_loop ((p, c) # rest) (best_match_image_ptr, max_matches) =
     (if sint max_matches < sint c then best_match_loop rest (p, c)
      else best_match_loop rest (best_match_image_ptr, max_matches))"

datatype display = BestMatch nat | NoMatchesFound

definition retrieve :: "(c_float \<Rightarrow> c_int) \<Rightarrow> hash_table \<Rightarrow> HashKey list \<Rightarrow> display" where
  "retrieve oor T query_superpixels =
     (let best_match_image_ptr = fst (best_match_loop (match_counts oor T query_superpixels) (0, 0))
      in if best_match_image_ptr \<noteq> 0 then BestMatch best_match_image_ptr else NoMatchesFound)"

section \<open>The key as the specification words it\<close>

text \<open>
  The five axis values (three mean colours, two midpoints of the bounding box), each divided
  by the width of its buckets and clamped, combined by multiply-and-add with the bucket
  counts as radices.
\<close>

definition clamp :: "int \<Rightarrow> int \<Rightarrow> int \<Rightarrow> int" where
  "clamp lo hi v = max lo (min v hi)"

definition axis_values :: "HashKey \<Rightarrow> c_float list" where
  "axis_values key =
     [float_div (float_of_int (sint (l_tot key))) (float_of_int (uint (pixel_count key))),
      float_div (float_of_int (sint (a_tot key))) (float_of_int (uint (pixel_count key))),
      float_div (float_of_int (sint (b_tot key))) (float_of_int (uint (pixel_count key))),
      float_div (float_of_int (sint (fst (x_range key) + snd (x_range key)))) 2,
      float_div (float_of_int (sint (fst (y_range key) + snd (y_range key)))) 2]"

definition bucket_widths :: "int list" where
  "bucket_widths = [256 div 16, 256 div 16, 256 div 16, 3840 div 10, 2160 div 10]"

definition bucket_counts :: "int list" where
  "bucket_counts = [16, 16, 16, 10, 10]"

definition bucket_index :: "(c_float \<Rightarrow> c_int) \<Rightarrow> c_float \<Rightarrow> int \<Rightarrow> int \<Rightarrow> int" where
  "bucket_index oor v w n = clamp 0 (n - 1) (sint (float_to_int oor (float_div v (float_of_int w))))"

definition bucket_indices :: "(c_float \<Rightarrow> c_int) \<Rightarrow> HashKey \<Rightarrow> int list" where
  "bucket_indices oor key =
     map (\<lambda>(v, w, n). bucket_index oor v w n) (zip (axis_values key) (zip bucket_widths bucket_counts))"

definition mixed_radix :: "(int \<times> int) list \<Rightarrow> int" where
  "mixed_radix ds = foldl (\<lambda>acc (i, n). acc * n + i) 0 ds"

definition spec_key :: "(c_float \<Rightarrow> c_int) \<Rightarrow> HashKey \<Rightarrow> int" where
  "spec_key oor key = mixed_radix (zip (bucket_indices oor key) bucket_counts)"

section \<open>Notions for the pass, the table and the votes\<close>

text \<open>
  The label of a cell as an index, the region a cell belongs to, the cells a list of
  positions holds for a label or a region, what it means for a label to be inside
  \<open>[0, superpixel_count)\<close>; the state after the positions \<open>ps\<close> have been visited: the memory
  behind \<^verbatim>\<open>superpixels\<close>, the block of records in it, the table; sums over all records of
  the table, the box test of a position; the count a map of votes holds for an image, and
  the pairs of a query record and a record of its bucket that an image owns.
\<close>

definition label_of :: "c_int Mat \<Rightarrow> nat \<times> nat \<Rightarrow> int" where
  "label_of labels p = sint (elem_at labels (fst p) (snd p))"


definition region_of :: "c_int Mat \<Rightarrow> nat \<times> nat \<Rightarrow> nat" where
  "region_of labels p = nat (sint (elem_at labels (fst p) (snd p)))"

definition valid_cell :: "c_int Mat \<Rightarrow> nat \<Rightarrow> nat \<times> nat \<Rightarrow> bool" where
  "valid_cell labels n p \<longleftrightarrow>
     0 \<le> sint (elem_at labels (fst p) (snd p)) \<and> region_of labels p < n"

definition cells_of :: "c_int Mat \<Rightarrow> (nat \<times> nat) list \<Rightarrow> nat \<Rightarrow> (nat \<times> nat) list" where
  "cells_of labels ps i = filter (\<lambda>p. region_of labels p = i) ps"

definition table_sum :: "(HashKey \<Rightarrow> nat) \<Rightarrow> hash_table \<Rightarrow> nat" where
  "table_sum f T = (\<Sum>k\<in>UNIV. sum_list (map f (bucket T k)))"

definition pass_store ::
  "(c_float \<Rightarrow> c_int) \<Rightarrow> (int \<Rightarrow> HashKey) \<Rightarrow> nat \<Rightarrow> Vec3b Mat \<Rightarrow> c_int Mat \<Rightarrow> c_int \<Rightarrow>
     (int \<Rightarrow> c_ulong) \<Rightarrow> (nat \<times> nat) list \<Rightarrow> hash_table \<Rightarrow> int \<Rightarrow> HashKey" where
  "pass_store oor heap img_ptr input_image labels n pcs ps T =
     fst (Hash_pass oor heap img_ptr input_image labels n pcs ps T)"

definition pass_array ::
  "(c_float \<Rightarrow> c_int) \<Rightarrow> (int \<Rightarrow> HashKey) \<Rightarrow> nat \<Rightarrow> Vec3b Mat \<Rightarrow> c_int Mat \<Rightarrow> c_int \<Rightarrow>
     (int \<Rightarrow> c_ulong) \<Rightarrow> (nat \<times> nat) list \<Rightarrow> hash_table \<Rightarrow> HashKey list" where
  "pass_array oor heap img_ptr input_image labels n pcs ps T =
     map (\<lambda>i. pass_store oor heap img_ptr input_image labels n pcs ps T (int i)) [0 ..< nat (sint n)]"

definition pass_table ::
  "(c_float \<Rightarrow> c_int) \<Rightarrow> (int \<Rightarrow> HashKey) \<Rightarrow> nat \<Rightarrow> Vec3b Mat \<Rightarrow> c_int Mat \<Rightarrow> c_int \<Rightarrow>
     (int \<Rightarrow> c_ulong) \<Rightarrow> (nat \<times> nat) list \<Rightarrow> hash_table \<Rightarrow> hash_table" where
  "pass_table oor heap img_ptr input_image labels n pcs ps T =
     snd (Hash_pass oor heap img_ptr input_image labels n pcs ps T)"

definition valid_cells :: "c_int Mat \<Rightarrow> c_int \<Rightarrow> (nat \<times> nat) list \<Rightarrow> bool" where
  "valid_cells labels n ps \<longleftrightarrow> (\<forall>p\<in>set ps. valid_cell labels (nat (sint n)) p)"

definition channel_sum :: "(Vec3b \<Rightarrow> uchar) \<Rightarrow> Vec3b Mat \<Rightarrow> (nat \<times> nat) list \<Rightarrow> nat" where
  "channel_sum ch img cs = sum_list (map (\<lambda>p. unat (ch (elem_at img (fst p) (snd p)))) cs)"

definition in_box :: "HashKey \<Rightarrow> nat \<times> nat \<Rightarrow> bool" where
  "in_box k p \<longleftrightarrow>
     sint (fst (x_range k)) \<le> int (snd p) \<and> int (snd p) \<le> sint (snd (x_range k)) \<and>
     sint (fst (y_range k)) \<le> int (fst p) \<and> int (fst p) \<le> sint (snd (y_range k))"

definition fired :: "c_int Mat \<Rightarrow> (int \<Rightarrow> c_ulong) \<Rightarrow> (nat \<times> nat) list \<Rightarrow> nat \<Rightarrow> bool" where
  "fired labels pcs ps i \<longleftrightarrow>
     1 \<le> unat (pcs (int i)) \<and> unat (pcs (int i)) \<le> length (cells_of labels ps i)"

definition all_entries :: "(c_int \<Rightarrow> HashKey \<Rightarrow> bool) \<Rightarrow> hash_table \<Rightarrow> bool" where
  "all_entries P T \<longleftrightarrow> (\<forall>k. \<forall>r\<in>set (bucket T k). P k r)"

definition votes :: "match_map \<Rightarrow> nat \<Rightarrow> c_int" where
  "votes mc p = (case map_of mc p of None \<Rightarrow> 0 | Some c \<Rightarrow> c)"

definition colliding_pairs ::
  "(c_float \<Rightarrow> c_int) \<Rightarrow> hash_table \<Rightarrow> HashKey list \<Rightarrow> nat \<Rightarrow> (HashKey \<times> HashKey) list" where
  "colliding_pairs oor T qs p =
     concat (map (\<lambda>q. if calculate_hash_key oor q = - 1 then []
                       else map (Pair q)
                              (filter (\<lambda>m. original_image m = p) (bucket T (calculate_hash_key oor q))))
               qs)"

definition collisions :: "(c_float \<Rightarrow> c_int) \<Rightarrow> hash_table \<Rightarrow> HashKey list \<Rightarrow> nat \<Rightarrow> nat" where
  "collisions oor T qs p = length (colliding_pairs oor T qs p)"

definition ascending :: "match_map \<Rightarrow> bool" where
  "ascending mc \<longleftrightarrow> sorted_wrt (<) (map fst mc)"

section \<open>Inputs for the instances\<close>

text \<open>Records and grids on which the theorems are instantiated.\<close>

definition example_key :: HashKey where
  "example_key = \<lparr>l_tot = 80, a_tot = 1600, b_tot = 200, x_range = (0, 3), y_range = (0, 1),
     original_image = 1, pixel_count = 8\<rparr>"

definition extreme_key :: HashKey where
  "extreme_key = \<lparr>l_tot = - 9223372036854775808, a_tot = 9223372036854775807, b_tot = - 1,
     x_range = (2147483647, 2147483647), y_range = (- 2147483648, - 1),
     original_image = 0, pixel_count = 1\<rparr>"

definition example_image :: "Vec3b Mat" where
  "example_image =
     \<lparr>rows = 2, cols = 2, elem_at = (\<lambda>row col. if row = 0 then (10, 20, 30) else (200, 210, 220))\<rparr>"

definition example_labels :: "c_int Mat" where
  "example_labels = \<lparr>rows = 2, cols = 2, elem_at = (\<lambda>row col. if row = 0 then 0 else 1)\<rparr>"


definition row_image :: "Vec3b Mat" where
  "row_image = \<lparr>rows = 1, cols = 5, elem_at = (\<lambda>row col. (10, 20, 30))\<rparr>"

definition row_labels :: "c_int Mat" where
  "row_labels = \<lparr>rows = 1, cols = 5, elem_at = (\<lambda>row col. word_of_nat col)\<rparr>"


definition blank_heap :: "int \<Rightarrow> HashKey" where
  "blank_heap i = zero_key"


definition counts_ptr :: "c_ulong list \<Rightarrow> int \<Rightarrow> c_ulong" where
  "counts_ptr xs = array_ptr xs (\<lambda>i. 0)"

definition example_table :: hash_table where
  "example_table =
     Hash x86_oor blank_heap 8 example_image example_labels 2 (counts_ptr [2, 2])
       (Hash x86_oor blank_heap 7 row_image row_labels 5 (counts_ptr [1, 1, 1, 1, 1]) Map.empty)"

definition example_query :: HashKey where
  "example_query = \<lparr>l_tot = 10, a_tot = 20, b_tot = 30, x_range = (0, 0), y_range = (0, 0),
     original_image = 9, pixel_count = 1\<rparr>"

section \<open>Properties of the rounding\<close>

text \<open>
  A number with a significand of at most 24 bits and an exponent the format has is its own
  rounding: small integers and their halves are exact.
\<close>

lemma pow2_power_int: "pow2 e = power_int 2 e"
  by (simp add: pow2_def power_int_def inverse_eq_divide power_one_over)

lemma pow2_pos: "0 < pow2 e"
  by (simp add: pow2_power_int)

lemma pow2_add: "pow2 (a + b) = pow2 a * pow2 b"
  by (simp add: pow2_power_int power_int_add)

lemma pow2_less_imp: "pow2 a < pow2 b \<Longrightarrow> a < b"
proof (rule ccontr)
  assume l: "pow2 a < pow2 b" and "\<not> a < b"
  then have "b \<le> a" by simp
  then have "pow2 b \<le> pow2 a" unfolding pow2_power_int by (rule power_int_increasing) simp
  with l show False by simp
qed

lemma bit_length_nonpos: "n \<le> 0 \<Longrightarrow> bit_length n = 0"
  by (simp add: bit_length.simps [of n])

lemma bit_length_pos: "0 < n \<Longrightarrow> bit_length n = Suc (bit_length (n div 2))"
  by (simp add: bit_length.simps [of n])

lemma bit_length_lower: "0 < n \<Longrightarrow> 2 ^ (bit_length n - 1) \<le> n"
proof (induction n rule: bit_length.induct)
  case (1 n)
  show ?case
  proof (cases "n div 2 \<le> 0")
    case True
    then show ?thesis using 1(2) by (simp add: bit_length_pos bit_length_nonpos)
  next
    case False
    then have h: "0 < n div 2" by simp
    then have "2 ^ (bit_length (n div 2) - 1) \<le> n div 2" using 1 by simp
    moreover have "bit_length (n div 2) \<noteq> 0" using h by (simp add: bit_length_pos)
    ultimately have "2 ^ bit_length (n div 2) \<le> 2 * (n div 2)"
      by (cases "bit_length (n div 2)") simp_all
    then show ?thesis using 1(2) by (simp add: bit_length_pos)
  qed
qed

lemma bit_length_upper: "n < 2 ^ bit_length n"
proof (induction n rule: bit_length.induct)
  case (1 n)
  show ?case
  proof (cases "n \<le> 0")
    case True
    then show ?thesis by (simp add: bit_length_nonpos)
  next
    case False
    then have "n div 2 < 2 ^ bit_length (n div 2)" using 1 by simp
    then have "n < 2 * 2 ^ bit_length (n div 2)" by linarith
    then show ?thesis using False by (simp add: bit_length_pos)
  qed
qed

lemma float_exponent_lower:
  assumes "q \<noteq> 0"
  shows "pow2 (float_exponent q) \<le> \<bar>q\<bar>"
proof (cases "1 \<le> \<bar>q\<bar>")
  case True
  let ?n = "\<lfloor>\<bar>q\<bar>\<rfloor>"
  have n: "0 < ?n" using True by simp
  then have b: "0 < bit_length ?n" by (simp add: bit_length_pos)
  have "pow2 (float_exponent q) = 2 ^ (bit_length ?n - 1)"
    using True b by (simp add: float_exponent_def pow2_def nat_diff_distrib' Suc_le_eq)
  also have "\<dots> \<le> of_int ?n"
    using bit_length_lower [OF n] by (metis of_int_le_iff of_int_numeral of_int_power)
  also have "\<dots> \<le> \<bar>q\<bar>" by simp
  finally show ?thesis .
next
  case False
  let ?N = "\<lceil>1 / \<bar>q\<bar>\<rceil> - 1"
  let ?b = "bit_length ?N"
  have q: "0 < \<bar>q\<bar>" using assms by simp
  have "1 / \<bar>q\<bar> \<le> of_int \<lceil>1 / \<bar>q\<bar>\<rceil>" by (rule le_of_int_ceiling)
  also have "\<lceil>1 / \<bar>q\<bar>\<rceil> = ?N + 1" by simp
  also have "(of_int (?N + 1) :: rat) \<le> of_int (2 ^ ?b)"
    using bit_length_upper [of ?N] by (simp only: of_int_le_iff)
  finally have "1 / \<bar>q\<bar> \<le> 2 ^ ?b" by simp
  then have "1 / 2 ^ ?b \<le> \<bar>q\<bar>" using q
    by (simp add: field_simps)
  moreover have "pow2 (float_exponent q) = 1 / 2 ^ ?b"
    using False by (simp add: float_exponent_def pow2_def)
  ultimately show ?thesis by simp
qed

lemma float_exponent_upper:
  assumes "q \<noteq> 0"
  shows "\<bar>q\<bar> < pow2 (float_exponent q + 1)"
proof (cases "1 \<le> \<bar>q\<bar>")
  case True
  let ?n = "\<lfloor>\<bar>q\<bar>\<rfloor>"
  have "?n + 1 \<le> 2 ^ bit_length ?n" using bit_length_upper [of ?n] by simp
  then have "(of_int (?n + 1) :: rat) \<le> of_int (2 ^ bit_length ?n)" by (simp only: of_int_le_iff)
  moreover have "\<bar>q\<bar> < of_int (?n + 1)" using floor_correct [of "\<bar>q\<bar>"] by simp
  ultimately have "\<bar>q\<bar> < 2 ^ bit_length ?n" by simp
  moreover have "pow2 (float_exponent q + 1) = 2 ^ bit_length ?n"
    using True by (simp add: float_exponent_def pow2_def)
  ultimately show ?thesis by simp
next
  case False
  define t where "t = 1 / \<bar>q\<bar>"
  define N where "N = \<lceil>t\<rceil> - 1"
  define b where "b = bit_length N"
  have q: "0 < \<bar>q\<bar>" "\<bar>q\<bar> < 1" using assms False by simp_all
  then have t: "1 < t" by (simp add: t_def)
  then have "1 < \<lceil>t\<rceil>" by (simp add: less_ceiling_iff)
  then have N: "0 < N" by (simp add: N_def)
  then have b: "0 < b" by (simp add: b_def bit_length_pos)
  have "(2 ^ (b - 1) :: rat) = of_int (2 ^ (b - 1))" by simp
  also have "\<dots> \<le> of_int N" using bit_length_lower [OF N] by (simp only: of_int_le_iff b_def)
  also have "\<dots> < t" using ceiling_correct [of t] by (simp add: N_def)
  finally have "2 ^ (b - 1) < 1 / \<bar>q\<bar>" by (simp only: t_def)
  then have lt: "\<bar>q\<bar> < 1 / 2 ^ (b - 1)" using q(1) by (simp add: field_simps)
  have e: "float_exponent q = - int b"
    using False by (simp add: float_exponent_def b_def N_def t_def)
  have "pow2 (1 - int b) = 1 / 2 ^ (b - 1)"
  proof (cases "b = 1")
    case True
    then show ?thesis by (simp add: pow2_def)
  next
    case nb: False
    then have "1 < b" using b by simp
    then have "nat (int b - 1) = b - 1" "\<not> 0 \<le> 1 - int b" by simp_all
    then show ?thesis by (simp add: pow2_def)
  qed
  then show ?thesis using lt by (simp add: e)
qed

lemma round_half_even_of_int: "round_half_even (of_int z) = z"
  by (simp add: round_half_even_def)

lemma float_round_exact:
  assumes "\<bar>m\<bar> < 2 ^ 24" and "- 149 \<le> k"
  shows "float_round (of_int m * pow2 k) = of_int m * pow2 k"
proof (cases "m = 0")
  case True
  then show ?thesis by (simp add: float_round_def)
next
  case False
  define q :: rat where "q = of_int m * pow2 k"
  define E where "E = max (float_exponent q) (- 126) - 23"
  define d where "d = nat (k - E)"
  have q0: "q \<noteq> 0" using False pow2_pos [of k] by (simp add: q_def)
  have "\<bar>q\<bar> = of_int \<bar>m\<bar> * pow2 k" using pow2_pos [of k] by (simp add: q_def abs_mult)
  also have "\<dots> < of_int (2 ^ 24) * pow2 k"
    using assms(1) pow2_pos [of k] by (simp only: mult_less_cancel_right_pos of_int_less_iff)
  also have "\<dots> = pow2 24 * pow2 k" by (simp add: pow2_def)
  also have "\<dots> = pow2 (24 + k)" by (simp only: pow2_add)
  finally have "pow2 (float_exponent q) < pow2 (24 + k)" using float_exponent_lower [OF q0] by simp
  then have "float_exponent q < 24 + k" by (rule pow2_less_imp)
  then have E: "E \<le> k" using assms(2) by (simp add: E_def)
  have "pow2 k = pow2 (E + int d)" using E by (simp add: d_def)
  also have "\<dots> = pow2 E * 2 ^ d" by (simp only: pow2_add) (simp add: pow2_def)
  finally have pk: "pow2 k = pow2 E * 2 ^ d" .
  have u: "pow2 E \<noteq> 0" using pow2_pos [of E] by simp
  have "q / pow2 E = of_int m * (pow2 E * 2 ^ d) / pow2 E" by (simp only: q_def pk)
  also have "\<dots> = of_int (m * 2 ^ d)" using u by simp
  finally have quot: "q / pow2 E = of_int (m * 2 ^ d)" .
  have r: "round_half_even (q / pow2 E) = m * 2 ^ d"
    by (simp only: quot round_half_even_of_int)
  have "of_int (m * 2 ^ d) * pow2 E = q / pow2 E * pow2 E" by (simp only: quot)
  also have "\<dots> = q" using u by simp
  finally have restore: "of_int (m * 2 ^ d) * pow2 E = q" .
  have "float_round q = of_int (round_half_even (q / pow2 E)) * pow2 E"
    using q0 by (simp add: float_round_def Let_def E_def)
  also have "\<dots> = q" by (simp only: r restore)
  finally show ?thesis by (simp only: q_def)
qed

lemma float_of_int_exact: "\<bar>m\<bar> < 2 ^ 24 \<Longrightarrow> float_of_int m = of_int m"
  using float_round_exact [of m 0] by (simp add: float_of_int_def pow2_def)

lemma float_half_exact: "\<bar>m\<bar> < 2 ^ 24 \<Longrightarrow> float_div (float_of_int m) 2 = of_int m / 2"
  using float_round_exact [of m "- 1"] by (simp add: float_div_def float_of_int_exact pow2_def)

lemma pow2_le_imp: "pow2 a \<le> pow2 b \<Longrightarrow> a \<le> b"
proof (rule ccontr)
  assume l: "pow2 a \<le> pow2 b" and "\<not> a \<le> b"
  then have "b < a" by simp
  then have "pow2 b < pow2 a" unfolding pow2_power_int by (intro power_int_strict_increasing) simp_all
  with l show False by simp
qed

lemma round_half_even_lower: "of_int a \<le> x \<Longrightarrow> a \<le> round_half_even x"
proof -
  assume "of_int a \<le> x"
  then have "a \<le> \<lfloor>x\<rfloor>" by (simp add: le_floor_iff)
  then show ?thesis by (simp add: round_half_even_def Let_def)
qed

lemma round_half_even_upper: "x \<le> of_int b \<Longrightarrow> round_half_even x \<le> b"
proof -
  assume x: "x \<le> of_int b"
  then have f: "\<lfloor>x\<rfloor> \<le> b" by (metis floor_mono floor_of_int)
  have "\<lfloor>x\<rfloor> + 1 \<le> b" if "of_int \<lfloor>x\<rfloor> < x"
  proof -
    have "(of_int \<lfloor>x\<rfloor> :: rat) < of_int b" using that x by simp
    then show ?thesis by simp
  qed
  then show ?thesis using f by (auto simp: round_half_even_def Let_def)
qed

lemma float_round_abs_le:
  assumes "\<bar>q\<bar> \<le> pow2 k" and "- 126 \<le> k"
  shows "\<bar>float_round q\<bar> \<le> pow2 k"
proof (cases "q = 0")
  case True
  then show ?thesis using pow2_pos [of k] by (simp add: float_round_def)
next
  case False
  define E where "E = max (float_exponent q) (- 126) - 23"
  define d where "d = nat (k - E)"
  define n where "n = round_half_even (q / pow2 E)"
  have "pow2 (float_exponent q) \<le> pow2 k" using float_exponent_lower [OF False] assms(1) by simp
  then have "float_exponent q \<le> k" by (rule pow2_le_imp)
  then have E: "E \<le> k" using assms(2) by (simp add: E_def)
  have "pow2 k = pow2 (E + int d)" using E by (simp add: d_def)
  also have "\<dots> = pow2 E * 2 ^ d" by (simp only: pow2_add) (simp add: pow2_def)
  finally have pk: "pow2 k = pow2 E * 2 ^ d" .
  have u: "0 < pow2 E" by (rule pow2_pos)
  have "\<bar>q / pow2 E\<bar> \<le> pow2 k / pow2 E" using assms(1) u by (simp add: divide_right_mono)
  also have "\<dots> = 2 ^ d" using u by (simp add: pk)
  finally have b: "\<bar>q / pow2 E\<bar> \<le> 2 ^ d" .
  have "of_int (- (2 ^ d)) \<le> q / pow2 E"
  proof -
    have "- (2 ^ d) \<le> q / pow2 E" using b by linarith
    then show ?thesis by simp
  qed
  then have "- (2 ^ d) \<le> n" unfolding n_def by (rule round_half_even_lower)
  moreover have "q / pow2 E \<le> of_int (2 ^ d)"
  proof -
    have "q / pow2 E \<le> 2 ^ d" using b by linarith
    then show ?thesis by simp
  qed
  then have "n \<le> 2 ^ d" unfolding n_def by (rule round_half_even_upper)
  ultimately have "\<bar>n\<bar> \<le> 2 ^ d" by simp
  then have "\<bar>of_int n :: rat\<bar> \<le> of_int (2 ^ d)" by (metis of_int_abs of_int_le_iff)
  then have "\<bar>of_int n * pow2 E\<bar> \<le> 2 ^ d * pow2 E" using u by (simp add: abs_mult mult_right_mono)
  moreover have "float_round q = of_int n * pow2 E"
    using False by (simp add: float_round_def Let_def E_def n_def)
  ultimately show ?thesis by (simp add: pk mult.commute)
qed

lemma float_exponent_nonneg: "1 \<le> \<bar>q\<bar> \<Longrightarrow> 0 \<le> float_exponent q"
proof -
  assume q: "1 \<le> \<bar>q\<bar>"
  then have "0 < \<lfloor>\<bar>q\<bar>\<rfloor>" by simp
  then have "0 < bit_length \<lfloor>\<bar>q\<bar>\<rfloor>" by (simp add: bit_length_pos)
  then show ?thesis using q by (simp add: float_exponent_def)
qed

lemma float_round_ge_one:
  assumes "1 \<le> q"
  shows "1 \<le> float_round q"
proof -
  define e where "e = float_exponent q"
  define n where "n = round_half_even (q / pow2 (e - 23))"
  have q0: "q \<noteq> 0" and qa: "\<bar>q\<bar> = q" using assms by simp_all
  have e0: "0 \<le> e" unfolding e_def using assms by (intro float_exponent_nonneg) simp
  have lo: "pow2 e \<le> q" using float_exponent_lower [OF q0] qa by (simp add: e_def)
  have u: "0 < pow2 (e - 23)" by (rule pow2_pos)
  have "pow2 e = pow2 ((e - 23) + 23)" by simp
  also have "\<dots> = pow2 (e - 23) * 2 ^ 23" by (simp only: pow2_add) (simp add: pow2_def)
  finally have pe: "pow2 e = pow2 (e - 23) * 2 ^ 23" .
  have "(2 ^ 23 :: rat) = pow2 e / pow2 (e - 23)" using u by (simp add: pe)
  also have "\<dots> \<le> q / pow2 (e - 23)" using lo u by (simp add: divide_right_mono)
  finally have "of_int (2 ^ 23) \<le> q / pow2 (e - 23)" by simp
  then have "2 ^ 23 \<le> n" unfolding n_def by (rule round_half_even_lower)
  then have "(of_int (2 ^ 23) :: rat) \<le> of_int n" by (simp only: of_int_le_iff)
  then have "2 ^ 23 * pow2 (e - 23) \<le> of_int n * pow2 (e - 23)" using u by (simp add: mult_right_mono)
  then have "pow2 e \<le> of_int n * pow2 (e - 23)" by (simp add: pe mult.commute)
  moreover have "1 \<le> pow2 e" using e0 by (simp add: pow2_def)
  moreover have "float_round q = of_int n * pow2 (e - 23)"
    using q0 e0 by (simp add: float_round_def Let_def e_def n_def max_def)
  ultimately show ?thesis by simp
qed

lemma float_div_bounded:
  assumes "\<bar>x\<bar> \<le> pow2 k" and "1 \<le> y" and "- 126 \<le> k"
  shows "\<bar>float_div x y\<bar> \<le> pow2 k"
proof -
  have "\<bar>x / y\<bar> = \<bar>x\<bar> / y" using assms(2) by simp
  also have "\<dots> \<le> \<bar>x\<bar> / 1" using assms(2) by (intro divide_left_mono) simp_all
  also have "\<dots> = \<bar>x\<bar>" by simp
  finally have "\<bar>x / y\<bar> \<le> pow2 k" using assms(1) by simp
  then show ?thesis unfolding float_div_def using assms(3) by (rule float_round_abs_le)
qed

lemma float_of_int_bounded: "\<bar>i\<bar> \<le> 2 ^ 63 \<Longrightarrow> \<bar>float_of_int i\<bar> \<le> pow2 63"
proof -
  assume "\<bar>i\<bar> \<le> 2 ^ 63"
  then have "\<bar>of_int i :: rat\<bar> \<le> of_int (2 ^ 63)" by (metis of_int_abs of_int_le_iff)
  then have "\<bar>of_int i :: rat\<bar> \<le> pow2 63" by (simp add: pow2_def)
  then show ?thesis unfolding float_of_int_def by (rule float_round_abs_le) simp
qed

lemma float_of_int_ge_one: "1 \<le> i \<Longrightarrow> 1 \<le> float_of_int i"
  unfolding float_of_int_def by (rule float_round_ge_one) simp

section \<open>Properties of the bucket key\<close>

lemma std_clamp:
  "0 \<le> sint hi \<Longrightarrow> sint (std_max 0 (std_min b hi)) = clamp 0 (sint hi) (sint b)"
  by (auto simp: std_max_def std_min_def clamp_def)

lemma clamp_bounds: "lo \<le> hi \<Longrightarrow> lo \<le> clamp lo hi v \<and> clamp lo hi v \<le> hi"
  by (auto simp: clamp_def)

lemma std_clamp_word:
  "0 \<le> sint hi \<Longrightarrow> std_max 0 (std_min b hi) = word_of_int (clamp 0 (sint hi) (sint b))"
  using std_clamp [of hi b, symmetric] by simp

lemma dims_values: "dims = [16, 16, 16, 10, 10]"
  by (simp add: dims_def lab_buckets_def x_buckets_def y_buckets_def)

lemma bucket_sizes:
  "sint lab_bucket_size = 16" "sint x_bucket_size = 384" "sint y_bucket_size = 216"
  by (simp_all add: lab_bucket_size_def lab_buckets_def x_bucket_size_def y_bucket_size_def
      max_img_w_def max_img_h_def x_buckets_def y_buckets_def)

lemma spec_key_unfold:
  "spec_key oor key =
     (((bucket_index oor (axis_values key ! 0) 16 16 * 16
        + bucket_index oor (axis_values key ! 1) 16 16) * 16
        + bucket_index oor (axis_values key ! 2) 16 16) * 10
        + bucket_index oor (axis_values key ! 3) 384 10) * 10
        + bucket_index oor (axis_values key ! 4) 216 10"
  by (simp add: spec_key_def mixed_radix_def bucket_indices_def axis_values_def
      bucket_widths_def bucket_counts_def)

lemma bucket_index_bounds: "0 < n \<Longrightarrow> 0 \<le> bucket_index oor v w n \<and> bucket_index oor v w n \<le> n - 1"
  by (simp add: bucket_index_def clamp_def)

lemma radix_step:
  fixes x c :: int
  assumes "0 \<le> x \<and> x \<le> X" and "0 \<le> c \<and> c \<le> n - 1" and "0 \<le> n"
  shows "0 \<le> x * n + c \<and> x * n + c \<le> X * n + (n - 1)"
proof -
  have "x * n \<le> X * n" using assms by (simp add: mult_right_mono)
  moreover have "0 \<le> x * n" using assms by simp
  ultimately show ?thesis using assms by linarith
qed

lemma spec_key_range: "0 \<le> spec_key oor key \<and> spec_key oor key < 409600"
proof -
  let ?i = "\<lambda>j w n. bucket_index oor (axis_values key ! j) w n"
  have b: "0 \<le> ?i 0 16 16 \<and> ?i 0 16 16 \<le> 15" "0 \<le> ?i 1 16 16 \<and> ?i 1 16 16 \<le> 16 - 1"
    "0 \<le> ?i 2 16 16 \<and> ?i 2 16 16 \<le> 16 - 1" "0 \<le> ?i 3 384 10 \<and> ?i 3 384 10 \<le> 10 - 1"
    "0 \<le> ?i 4 216 10 \<and> ?i 4 216 10 \<le> 10 - 1"
    using bucket_index_bounds [of 16 oor] bucket_index_bounds [of 10 oor] by simp_all
  note s1 = radix_step [OF b(1) b(2)]
  note s2 = radix_step [OF s1 b(3)]
  note s3 = radix_step [OF s2 b(4)]
  note s4 = radix_step [OF s3 b(5)]
  show ?thesis unfolding spec_key_unfold using s4 by simp
qed

lemma calculate_hash_key_word:
  "calculate_hash_key oor key = (if pixel_count key = 0 then - 1 else word_of_int (spec_key oor key))"
  by (simp add: calculate_hash_key_def Let_def dims_values bucket_sizes std_clamp_word
      spec_key_unfold bucket_index_def axis_values_def)

lemma sint_word_of_int_32:
  "- (2 ^ 31) \<le> k \<Longrightarrow> k < 2 ^ 31 \<Longrightarrow> sint (word_of_int k :: c_int) = k"
  by (simp add: signed_of_int signed_take_bit_int_eq_self)

lemma sint_key:
  "pixel_count key \<noteq> 0 \<Longrightarrow> sint (calculate_hash_key oor key) = spec_key oor key"
  using spec_key_range [of oor key]
  by (simp add: calculate_hash_key_word sint_word_of_int_32)

lemma key_sentinel_iff: "calculate_hash_key oor key = - 1 \<longleftrightarrow> pixel_count key = 0"
proof
  assume k: "calculate_hash_key oor key = - 1"
  show "pixel_count key = 0"
  proof (rule ccontr)
    assume "pixel_count key \<noteq> 0"
    then have "sint (calculate_hash_key oor key) = spec_key oor key" by (rule sint_key)
    with k spec_key_range [of oor key] show False by simp
  qed
next
  assume "pixel_count key = 0"
  then show "calculate_hash_key oor key = - 1" by (simp add: calculate_hash_key_def)
qed

lemma sint_add_32:
  "- (2 ^ 31) \<le> sint a + sint b \<Longrightarrow> sint a + sint b < 2 ^ 31 \<Longrightarrow>
     sint (a + b :: c_int) = sint a + sint b"
  by (simp add: sint_word_ariths signed_take_bit_int_eq_self)

lemma midpoint_exact:
  assumes "0 \<le> sint a" "sint a < 2 ^ 23" "0 \<le> sint b" "sint b < 2 ^ 23"
  shows "float_div (float_of_int (sint (a + b :: c_int))) 2 = (of_int (sint a) + of_int (sint b)) / 2"
proof -
  have s: "sint (a + b) = sint a + sint b" using assms by (intro sint_add_32) simp_all
  have "\<bar>sint a + sint b\<bar> < 2 ^ 24" using assms by simp
  from float_half_exact [OF this] show ?thesis by (simp add: s)
qed

lemma bucket_indices_eq:
  "bucket_indices oor key =
     map (\<lambda>j. clamp 0 (bucket_counts ! j - 1)
            (sint (float_to_int oor (float_div (axis_values key ! j) (float_of_int (bucket_widths ! j))))))
       [0, 1, 2, 3, 4]"
  by (simp add: bucket_indices_def bucket_index_def axis_values_def bucket_widths_def bucket_counts_def)

lemma bucket_indices_range:
  "j < 5 \<Longrightarrow> 0 \<le> bucket_indices oor key ! j \<and> bucket_indices oor key ! j < bucket_counts ! j"
proof -
  assume "j < 5"
  then have "j = 0 \<or> j = 1 \<or> j = 2 \<or> j = 3 \<or> j = 4" by linarith
  then show ?thesis
    by (auto simp: bucket_indices_eq bucket_counts_def clamp_def)
qed

lemma spec_key_positional:
  "spec_key oor key =
     bucket_indices oor key ! 0 * 25600 + bucket_indices oor key ! 1 * 1600
     + bucket_indices oor key ! 2 * 100 + bucket_indices oor key ! 3 * 10 + bucket_indices oor key ! 4"
  by (simp add: spec_key_unfold bucket_indices_def axis_values_def bucket_widths_def bucket_counts_def)

lemma key_ignores_image:
  "calculate_hash_key oor (key\<lparr>original_image := img\<rparr>) = calculate_hash_key oor key"
  by (simp add: calculate_hash_key_def)

lemma widths_from_constants:
  "bucket_widths = [sint lab_bucket_size, sint lab_bucket_size, sint lab_bucket_size,
     sint max_img_w div sint x_buckets, sint max_img_h div sint y_buckets]"
  "bucket_counts = map sint dims"
  "sint max_img_w = 3840" "sint max_img_h = 2160"
  by (simp_all add: bucket_widths_def bucket_counts_def bucket_sizes dims_values max_img_w_def max_img_h_def
      x_buckets_def y_buckets_def)

lemma sint_64_bounded: "\<bar>sint (w :: c_long)\<bar> \<le> 2 ^ 63"
  using sint_greater_eq [of w] sint_less [of w] by simp

lemma sint_32_bounded: "\<bar>sint (w :: c_int)\<bar> \<le> 2 ^ 63"
  using sint_greater_eq [of w] sint_less [of w] by simp

text \<open>
  No float of \<open>calculate_hash_key\<close> leaves the finite range of the format: the five axis
  values and their quotients by the bucket widths are bounded by \<open>2\<^sup>6\<^sup>3\<close>, far below
  \<open>2\<^sup>1\<^sup>2\<^sup>8\<close>, and the divisor of the means is at least one.
\<close>

lemma calculate_hash_key_floats_finite:
  assumes "pixel_count key \<noteq> 0"
  shows "1 \<le> float_of_int (uint (pixel_count key))"
    and "\<forall>v\<in>set (axis_values key). \<bar>v\<bar> \<le> 2 ^ 63"
    and "\<forall>j<5. \<bar>float_div (axis_values key ! j) (float_of_int (bucket_widths ! j))\<bar> \<le> 2 ^ 63"
proof -
  have "uint (pixel_count key) \<noteq> 0" using assms by (simp add: uint_0_iff)
  then have "1 \<le> uint (pixel_count key)" using uint_ge_0 [of "pixel_count key"] by linarith
  then show d: "1 \<le> float_of_int (uint (pixel_count key))" by (rule float_of_int_ge_one)
  have p: "pow2 63 = 2 ^ 63" by (simp add: pow2_def)
  have two: "(1 :: rat) \<le> 2" by simp
  have m: "\<bar>float_div (float_of_int (sint w)) (float_of_int (uint (pixel_count key)))\<bar> \<le> pow2 63"
    for w :: c_long
    by (intro float_div_bounded float_of_int_bounded sint_64_bounded d) simp
  have c: "\<bar>float_div (float_of_int (sint w)) 2\<bar> \<le> pow2 63" for w :: c_int
    by (intro float_div_bounded float_of_int_bounded sint_32_bounded two) simp
  show a: "\<forall>v\<in>set (axis_values key). \<bar>v\<bar> \<le> 2 ^ 63"
    using m c by (simp add: axis_values_def p)
  have w: "1 \<le> float_of_int (bucket_widths ! j)" if "j < 5" for j
  proof -
    have "j = 0 \<or> j = 1 \<or> j = 2 \<or> j = 3 \<or> j = 4" using that by linarith
    then have "1 \<le> bucket_widths ! j" by (auto simp: bucket_widths_def)
    then show ?thesis by (rule float_of_int_ge_one)
  qed
  have "\<bar>float_div (axis_values key ! j) (float_of_int (bucket_widths ! j))\<bar> \<le> pow2 63"
    if "j < 5" for j
  proof -
    have "length (axis_values key) = 5" by (simp add: axis_values_def)
    then have "axis_values key ! j \<in> set (axis_values key)" using that by (intro nth_mem) simp
    then have "\<bar>axis_values key ! j\<bar> \<le> pow2 63" using a p by simp
    then show ?thesis using w [OF that] by (rule float_div_bounded) simp
  qed
  then show "\<forall>j<5. \<bar>float_div (axis_values key ! j) (float_of_int (bucket_widths ! j))\<bar> \<le> 2 ^ 63"
    using p by simp
qed

section \<open>Properties of the aggregation pass\<close>

lemma accumulate_fields:
  "pixel_count (accumulate img_ptr input_image row col k) = pixel_count k + 1"
  "l_tot (accumulate img_ptr input_image row col k)
      = l_tot k + ucast (fst (elem_at input_image row col))"
  "a_tot (accumulate img_ptr input_image row col k)
      = a_tot k + ucast (fst (snd (elem_at input_image row col)))"
  "b_tot (accumulate img_ptr input_image row col k)
      = b_tot k + ucast (snd (snd (elem_at input_image row col)))"
  "original_image (accumulate img_ptr input_image row col k)
      = (if pixel_count k = 0 then img_ptr else original_image k)"
  by (simp_all add: accumulate_def Let_def)

lemma accumulate_x_range:
  "x_range (accumulate img_ptr input_image row col k) =
     (if pixel_count k = 0 then (word_of_nat col, word_of_nat col)
      else (if sint (word_of_nat col :: c_int) < sint (fst (x_range k)) then word_of_nat col else fst (x_range k),
            if sint (snd (x_range k)) < sint (word_of_nat col :: c_int) then word_of_nat col else snd (x_range k)))"
  by (simp add: accumulate_def Let_def)

lemma accumulate_y_range:
  "y_range (accumulate img_ptr input_image row col k) =
     (if pixel_count k = 0 then (word_of_nat row, word_of_nat row)
      else (if sint (word_of_nat row :: c_int) < sint (fst (y_range k)) then word_of_nat row else fst (y_range k),
            if sint (snd (y_range k)) < sint (word_of_nat row :: c_int) then word_of_nat row else snd (y_range k)))"
  by (simp add: accumulate_def Let_def)

lemma Hash_body_eq:
  "Hash_body oor img_ptr input_image labels pcs row col sps T =
     (sps(sint (elem_at labels row col) :=
            accumulate img_ptr input_image row col (sps (sint (elem_at labels row col)))),
      if pixel_count (sps (sint (elem_at labels row col))) + 1 = pcs (sint (elem_at labels row col))
           \<and> pixel_count (sps (sint (elem_at labels row col))) + 1 \<noteq> 0
      then push_back T
             (calculate_hash_key oor
                (accumulate img_ptr input_image row col (sps (sint (elem_at labels row col)))))
             (accumulate img_ptr input_image row col (sps (sint (elem_at labels row col))))
      else T)"
  by (simp add: Hash_body_def Let_def key_sentinel_iff accumulate_fields)

lemma Hash_loop_append:
  "Hash_loop oor img_ptr input_image labels pcs (ps @ qs) sps T =
     Hash_loop oor img_ptr input_image labels pcs qs
       (fst (Hash_loop oor img_ptr input_image labels pcs ps sps T))
       (snd (Hash_loop oor img_ptr input_image labels pcs ps sps T))"
  by (induction ps arbitrary: sps T) (simp_all split: prod.splits)

lemma Hash_loop_snoc:
  "Hash_loop oor img_ptr input_image labels pcs (ps @ [p]) sps T =
     Hash_body oor img_ptr input_image labels pcs (fst p) (snd p)
       (fst (Hash_loop oor img_ptr input_image labels pcs ps sps T))
       (snd (Hash_loop oor img_ptr input_image labels pcs ps sps T))"
  by (simp add: Hash_loop_append split: prod.splits)

lemma valid_cells_append [simp]:
  "valid_cells labels n (ps @ qs) \<longleftrightarrow> valid_cells labels n ps \<and> valid_cells labels n qs"
  by (auto simp: valid_cells_def)

lemma valid_cells_single [simp]:
  "valid_cells labels n [p] \<longleftrightarrow> valid_cell labels (nat (sint n)) p"
  by (simp add: valid_cells_def)

lemma pass_store_nil:
  "pass_store oor heap img_ptr input_image labels n pcs [] T
      = array_ptr (replicate (nat (sint n)) zero_key) heap"
  by (simp add: pass_store_def Hash_pass_def)

lemma pass_store_snoc:
  "pass_store oor heap img_ptr input_image labels n pcs (ps @ [p]) T =
     (pass_store oor heap img_ptr input_image labels n pcs ps T)
       (label_of labels p :=
          accumulate img_ptr input_image (fst p) (snd p)
              (pass_store oor heap img_ptr input_image labels n pcs ps T (label_of labels p)))"
  by (simp add: pass_store_def Hash_pass_def Hash_loop_snoc Hash_body_eq label_of_def)

lemma pass_table_snoc:
  "pass_table oor heap img_ptr input_image labels n pcs (ps @ [p]) T =
     (if pixel_count (pass_store oor heap img_ptr input_image labels n pcs ps T (label_of labels p)) + 1 = pcs (label_of labels p)
           \<and> pixel_count (pass_store oor heap img_ptr input_image labels n pcs ps T (label_of labels p)) + 1 \<noteq> 0
      then push_back (pass_table oor heap img_ptr input_image labels n pcs ps T)
             (calculate_hash_key oor
                (accumulate img_ptr input_image (fst p) (snd p)
                    (pass_store oor heap img_ptr input_image labels n pcs ps T (label_of labels p))))
             (accumulate img_ptr input_image (fst p) (snd p)
                 (pass_store oor heap img_ptr input_image labels n pcs ps T (label_of labels p)))
      else pass_table oor heap img_ptr input_image labels n pcs ps T)"
  unfolding pass_store_def pass_table_def Hash_pass_def Hash_loop_snoc Hash_body_eq label_of_def
    snd_conv ..

lemma label_of_valid: "valid_cell labels N p \<Longrightarrow> label_of labels p = int (region_of labels p)"
  by (simp add: valid_cell_def label_of_def region_of_def)

lemma length_pass_array: "length (pass_array oor heap img_ptr input_image labels n pcs ps T)
    = nat (sint n)"
  by (simp add: pass_array_def)

lemma pass_array_nth:
  "i < nat (sint n) \<Longrightarrow> pass_array oor heap img_ptr input_image labels n pcs ps T ! i
      = pass_store oor heap img_ptr input_image labels n pcs ps T (int i)"
  by (simp add: pass_array_def)

lemma pass_nil:
  "pass_array oor heap img_ptr input_image labels n pcs [] T = replicate (nat (sint n)) zero_key"
  "pass_table oor heap img_ptr input_image labels n pcs [] T = T"
proof -
  show "pass_array oor heap img_ptr input_image labels n pcs [] T
      = replicate (nat (sint n)) zero_key"
    by (rule nth_equalityI) (simp_all add: length_pass_array pass_array_nth pass_store_nil array_ptr_def)
  show "pass_table oor heap img_ptr input_image labels n pcs [] T = T"
    by (simp add: pass_table_def Hash_pass_def)
qed

lemma pass_snoc:
  assumes "valid_cells labels n ps" and "valid_cell labels (nat (sint n)) p"
  shows "pass_array oor heap img_ptr input_image labels n pcs (ps @ [p]) T =
           (pass_array oor heap img_ptr input_image labels n pcs ps T)
             [region_of labels p :=
                accumulate img_ptr input_image (fst p) (snd p)
                  (pass_array oor heap img_ptr input_image labels n pcs ps T ! region_of labels p)]"
    and "pass_table oor heap img_ptr input_image labels n pcs (ps @ [p]) T =
           (if pixel_count (pass_array oor heap img_ptr input_image labels n pcs ps T ! region_of labels p) + 1
                 = pcs (int (region_of labels p))
               \<and> pixel_count (pass_array oor heap img_ptr input_image labels n pcs ps T ! region_of labels p) + 1 \<noteq> 0
            then push_back (pass_table oor heap img_ptr input_image labels n pcs ps T)
                   (calculate_hash_key oor
                      (accumulate img_ptr input_image (fst p) (snd p)
                         (pass_array oor heap img_ptr input_image labels n pcs ps T ! region_of labels p)))
                   (accumulate img_ptr input_image (fst p) (snd p)
                      (pass_array oor heap img_ptr input_image labels n pcs ps T ! region_of labels p))
            else pass_table oor heap img_ptr input_image labels n pcs ps T)"
proof -
  have j: "region_of labels p < nat (sint n)" using assms(2) by (simp add: valid_cell_def)
  have l: "label_of labels p = int (region_of labels p)" by (rule label_of_valid [OF assms(2)])
  have a: "pass_array oor heap img_ptr input_image labels n pcs ps T ! region_of labels p
      = pass_store oor heap img_ptr input_image labels n pcs ps T (label_of labels p)"
    by (simp add: pass_array_nth [OF j] l)
  show "pass_array oor heap img_ptr input_image labels n pcs (ps @ [p]) T =
           (pass_array oor heap img_ptr input_image labels n pcs ps T)
             [region_of labels p :=
                accumulate img_ptr input_image (fst p) (snd p)
                  (pass_array oor heap img_ptr input_image labels n pcs ps T ! region_of labels p)]"
  proof (rule nth_equalityI)
    show "length (pass_array oor heap img_ptr input_image labels n pcs (ps @ [p]) T) =
        length ((pass_array oor heap img_ptr input_image labels n pcs ps T)
             [region_of labels p :=
                accumulate img_ptr input_image (fst p) (snd p)
                  (pass_array oor heap img_ptr input_image labels n pcs ps T ! region_of labels p)])"
      by (simp add: length_pass_array)
  next
    fix i
    assume "i < length (pass_array oor heap img_ptr input_image labels n pcs (ps @ [p]) T)"
    then have i: "i < nat (sint n)" by (simp add: length_pass_array)
    show "pass_array oor heap img_ptr input_image labels n pcs (ps @ [p]) T ! i =
        (pass_array oor heap img_ptr input_image labels n pcs ps T)
             [region_of labels p :=
                accumulate img_ptr input_image (fst p) (snd p)
                  (pass_array oor heap img_ptr input_image labels n pcs ps T ! region_of labels p)] ! i"
      unfolding a using i
      by (simp add: pass_array_nth pass_store_snoc l nth_list_update length_pass_array)
  qed
  show "pass_table oor heap img_ptr input_image labels n pcs (ps @ [p]) T =
           (if pixel_count (pass_array oor heap img_ptr input_image labels n pcs ps T ! region_of labels p) + 1
                 = pcs (int (region_of labels p))
               \<and> pixel_count (pass_array oor heap img_ptr input_image labels n pcs ps T ! region_of labels p) + 1 \<noteq> 0
            then push_back (pass_table oor heap img_ptr input_image labels n pcs ps T)
                   (calculate_hash_key oor
                      (accumulate img_ptr input_image (fst p) (snd p)
                         (pass_array oor heap img_ptr input_image labels n pcs ps T ! region_of labels p)))
                   (accumulate img_ptr input_image (fst p) (snd p)
                      (pass_array oor heap img_ptr input_image labels n pcs ps T ! region_of labels p))
            else pass_table oor heap img_ptr input_image labels n pcs ps T)"
    unfolding a pass_table_snoc l ..
qed

lemma cells_of_snoc:
  "cells_of labels (ps @ [p]) i =
     (if region_of labels p = i then cells_of labels ps i @ [p] else cells_of labels ps i)"
  by (simp add: cells_of_def)

lemma cells_of_nil [simp]: "cells_of labels [] i = []"
  by (simp add: cells_of_def)

lemma length_cells_of_le: "length (cells_of labels ps i) \<le> length ps"
  by (simp add: cells_of_def)

lemma pass_pixel_count:
  "valid_cells labels n ps \<Longrightarrow> i < nat (sint n) \<Longrightarrow>
     pixel_count (pass_array oor heap img_ptr input_image labels n pcs ps T ! i)
       = word_of_nat (length (cells_of labels ps i))"
proof (induction ps rule: rev_induct)
  case Nil
  then show ?case by (simp add: pass_nil zero_key_def)
next
  case (snoc p ps)
  have v: "valid_cells labels n ps" "valid_cell labels (nat (sint n)) p"
    using snoc.prems by simp_all
  have l: "length (pass_array oor heap img_ptr input_image labels n pcs ps T) = nat (sint n)"
    by (rule length_pass_array)
  show ?case
    using snoc.IH [OF v(1) snoc.prems(2)] snoc.prems(2) l
    by (simp add: pass_snoc(1) [OF v] cells_of_snoc nth_list_update accumulate_fields)
qed

lemma pass_untouched:
  "valid_cells labels n ps \<Longrightarrow> i < nat (sint n) \<Longrightarrow> cells_of labels ps i = [] \<Longrightarrow>
     pass_array oor heap img_ptr input_image labels n pcs ps T ! i = zero_key"
proof (induction ps rule: rev_induct)
  case Nil
  then show ?case by (simp add: pass_nil)
next
  case (snoc p ps)
  have v: "valid_cells labels n ps" "valid_cell labels (nat (sint n)) p"
    using snoc.prems by simp_all
  have ne: "region_of labels p \<noteq> i" and e: "cells_of labels ps i = []"
    using snoc.prems(3) by (auto simp: cells_of_snoc split: if_splits)
  show ?case
    using snoc.IH [OF v(1) snoc.prems(2) e] ne
    by (simp add: pass_snoc(1) [OF v])
qed

lemma channel_sum_snoc [simp]:
  "channel_sum ch img (cs @ [p]) = channel_sum ch img cs + unat (ch (elem_at img (fst p) (snd p)))"
  by (simp add: channel_sum_def)

lemma channel_sum_nil [simp]: "channel_sum ch img [] = 0"
  by (simp add: channel_sum_def)

lemma channel_sum_le: "channel_sum ch img cs \<le> 255 * length cs"
proof (induction cs)
  case Nil
  then show ?case by simp
next
  case (Cons p cs)
  have "unat (ch (elem_at img (fst p) (snd p))) < 2 ^ 8"
    using unsigned_less [of "ch (elem_at img (fst p) (snd p))", where ?'a = nat] by simp
  then show ?case using Cons by (simp add: channel_sum_def)
qed

lemma pass_color_sums:
  assumes "valid_cells labels n ps" and "i < nat (sint n)"
  shows "l_tot (pass_array oor heap img_ptr input_image labels n pcs ps T ! i)
           = word_of_nat (channel_sum fst input_image (cells_of labels ps i))"
    and "a_tot (pass_array oor heap img_ptr input_image labels n pcs ps T ! i)
           = word_of_nat (channel_sum (\<lambda>v. fst (snd v)) input_image (cells_of labels ps i))"
    and "b_tot (pass_array oor heap img_ptr input_image labels n pcs ps T ! i)
           = word_of_nat (channel_sum (\<lambda>v. snd (snd v)) input_image (cells_of labels ps i))"
  using assms
proof (induction ps rule: rev_induct)
  case Nil
  {
    case 1 then show ?case by (simp add: pass_nil zero_key_def)
  next
    case 2 then show ?case by (simp add: pass_nil zero_key_def)
  next
    case 3 then show ?case by (simp add: pass_nil zero_key_def)
  }
next
  case (snoc p ps)
  {
    case 1
    have v: "valid_cells labels n ps" "valid_cell labels (nat (sint n)) p"
      using 1 by simp_all
    have l: "length (pass_array oor heap img_ptr input_image labels n pcs ps T) = nat (sint n)"
      by (rule length_pass_array)
    show ?case using snoc.IH(1) [OF v(1) 1(2)] 1(2) l
      by (simp add: pass_snoc(1) [OF v] cells_of_snoc nth_list_update accumulate_fields)
  next
    case 2
    have v: "valid_cells labels n ps" "valid_cell labels (nat (sint n)) p"
      using 2 by simp_all
    have l: "length (pass_array oor heap img_ptr input_image labels n pcs ps T) = nat (sint n)"
      by (rule length_pass_array)
    show ?case using snoc.IH(2) [OF v(1) 2(2)] 2(2) l
      by (simp add: pass_snoc(1) [OF v] cells_of_snoc nth_list_update accumulate_fields)
  next
    case 3
    have v: "valid_cells labels n ps" "valid_cell labels (nat (sint n)) p"
      using 3 by simp_all
    have l: "length (pass_array oor heap img_ptr input_image labels n pcs ps T) = nat (sint n)"
      by (rule length_pass_array)
    show ?case using snoc.IH(3) [OF v(1) 3(2)] 3(2) l
      by (simp add: pass_snoc(1) [OF v] cells_of_snoc nth_list_update accumulate_fields)
  }
qed

lemma sint_word_of_nat_64:
  "m < 2 ^ 63 \<Longrightarrow> sint (word_of_nat m :: c_long) = int m"
proof -
  assume "m < 2 ^ 63"
  then have "int m < 2 ^ 63" by (metis of_nat_less_iff of_nat_numeral of_nat_power)
  then show ?thesis by (simp add: signed_of_nat signed_take_bit_int_eq_self)
qed

lemma sint_word_of_nat_32:
  "m < 2 ^ 31 \<Longrightarrow> sint (word_of_nat m :: c_int) = int m"
proof -
  assume "m < 2 ^ 31"
  then have "int m < 2 ^ 31" by (metis of_nat_less_iff of_nat_numeral of_nat_power)
  then show ?thesis by (simp add: signed_of_nat signed_take_bit_int_eq_self)
qed

lemma word_of_nat_64_eq_0: "m < 2 ^ 64 \<Longrightarrow> (word_of_nat m :: c_ulong) = 0 \<longleftrightarrow> m = 0"
  by (auto simp: word_of_nat_eq_0_iff dest: dvd_imp_le)

lemma unat_word_of_nat_64: "m < 2 ^ 64 \<Longrightarrow> unat (word_of_nat m :: c_ulong) = m"
  by (simp add: unat_of_nat)

lemma accumulate_in_box_self:
  "row < 2 ^ 31 \<Longrightarrow> col < 2 ^ 31 \<Longrightarrow> in_box (accumulate img_ptr input_image row col k) (row, col)"
  by (simp add: in_box_def accumulate_x_range accumulate_y_range sint_word_of_nat_32)

lemma accumulate_in_box_keep:
  "row < 2 ^ 31 \<Longrightarrow> col < 2 ^ 31 \<Longrightarrow> pixel_count k \<noteq> 0 \<Longrightarrow> in_box k q \<Longrightarrow>
     in_box (accumulate img_ptr input_image row col k) q"
  by (auto simp: in_box_def accumulate_x_range accumulate_y_range sint_word_of_nat_32)

lemma pass_in_box:
  assumes "valid_cells labels n ps" and "i < nat (sint n)" and "length ps < 2 ^ 64"
    and "\<forall>p\<in>set ps. fst p < 2 ^ 31 \<and> snd p < 2 ^ 31"
    and "q \<in> set (cells_of labels ps i)"
  shows "in_box (pass_array oor heap img_ptr input_image labels n pcs ps T ! i) q"
  using assms
proof (induction ps rule: rev_induct)
  case Nil
  then show ?case by simp
next
  case (snoc p ps)
  have v: "valid_cells labels n ps" "valid_cell labels (nat (sint n)) p"
    using snoc.prems by simp_all
  have l: "length (pass_array oor heap img_ptr input_image labels n pcs ps T) = nat (sint n)"
    by (rule length_pass_array)
  have len: "length ps < 2 ^ 64" using snoc.prems(3) by simp
  have rc: "\<forall>p\<in>set ps. fst p < 2 ^ 31 \<and> snd p < 2 ^ 31" "fst p < 2 ^ 31" "snd p < 2 ^ 31"
    using snoc.prems(4) by simp_all
  show ?case
  proof (cases "region_of labels p = i")
    case False
    then have "q \<in> set (cells_of labels ps i)" using snoc.prems(5) by (simp add: cells_of_snoc)
    from snoc.IH [OF v(1) snoc.prems(2) len rc(1) this] False show ?thesis
      by (simp add: pass_snoc(1) [OF v])
  next
    case True
    let ?old = "pass_array oor heap img_ptr input_image labels n pcs ps T ! i"
    have new: "pass_array oor heap img_ptr input_image labels n pcs (ps @ [p]) T ! i
        = accumulate img_ptr input_image (fst p) (snd p) ?old"
      using True l snoc.prems(2) by (simp add: pass_snoc(1) [OF v])
    show ?thesis
    proof (cases "q \<in> set (cells_of labels ps i)")
      case True
      then have "0 < length (cells_of labels ps i)" by (cases "cells_of labels ps i") auto
      moreover have "length (cells_of labels ps i) < 2 ^ 64"
        using length_cells_of_le [of labels ps i] len by simp
      ultimately have "pixel_count ?old \<noteq> 0"
        using pass_pixel_count [OF v(1) snoc.prems(2), of oor heap img_ptr input_image pcs T]
        by (simp add: word_of_nat_64_eq_0)
      then show ?thesis
        unfolding new
        using accumulate_in_box_keep [OF rc(2) rc(3)] snoc.IH [OF v(1) snoc.prems(2) len rc(1) True]
        by simp
    next
      case False
      then have "q = p" using snoc.prems(5) by (auto simp: cells_of_snoc split: if_splits)
      then show ?thesis unfolding new using accumulate_in_box_self [OF rc(2) rc(3)] by simp
    qed
  qed
qed

lemma bucket_push_back:
  "bucket (push_back T k r) k' = (if k' = k then bucket T k @ [r] else bucket T k')"
  by (simp add: bucket_def push_back_def)

lemma table_sum_push_back: "table_sum f (push_back T k r) = table_sum f T + f r"
proof -
  have "table_sum f (push_back T k r)
      = (\<Sum>k'\<in>UNIV. sum_list (map f (bucket T k')) + (if k' = k then f r else 0))"
    unfolding table_sum_def by (rule sum.cong) (simp_all add: bucket_push_back)
  also have "\<dots> = table_sum f T + (\<Sum>k'\<in>UNIV. if k' = k then f r else 0)"
    by (simp add: sum.distrib table_sum_def)
  also have "(\<Sum>k'\<in>UNIV. if k' = k then f r else 0) = f r"
    by (simp add: sum.delta')
  finally show ?thesis .
qed

lemma all_entries_push_back:
  "all_entries P T \<Longrightarrow> P k r \<Longrightarrow> all_entries P (push_back T k r)"
  by (auto simp: all_entries_def bucket_push_back)

lemma sum_cells_of:
  "\<forall>p\<in>set ps. region_of labels p < N \<Longrightarrow> (\<Sum>i<N. length (cells_of labels ps i)) = length ps"
proof (induction ps)
  case Nil
  then show ?case by simp
next
  case (Cons p ps)
  have "(\<Sum>i<N. length (cells_of labels (p # ps) i))
      = (\<Sum>i<N. length (cells_of labels ps i) + (if i = region_of labels p then 1 else 0))"
    by (rule sum.cong) (auto simp: cells_of_def)
  also have "\<dots> = (\<Sum>i<N. length (cells_of labels ps i)) + (\<Sum>i<N. if i
      = region_of labels p then 1 else 0)"
    by (simp add: sum.distrib)
  also have "(\<Sum>i<N. if i = region_of labels p then 1 else 0) = (1::nat)"
    using Cons.prems by (simp add: sum.delta)
  finally show ?case using Cons by simp
qed

lemma pass_step_fires:
  assumes v: "valid_cells labels n ps" "valid_cell labels (nat (sint n)) p"
    and len: "length (ps @ [p]) < 2 ^ 64"
  shows "pass_table oor heap img_ptr input_image labels n pcs (ps @ [p]) T =
     (if length (cells_of labels (ps @ [p]) (region_of labels p))
         = unat (pcs (int (region_of labels p)))
      then push_back (pass_table oor heap img_ptr input_image labels n pcs ps T)
             (calculate_hash_key oor
                (pass_array oor heap img_ptr input_image labels n pcs (ps @ [p]) T ! region_of labels p))
             (pass_array oor heap img_ptr input_image labels n pcs (ps @ [p]) T ! region_of labels p)
      else pass_table oor heap img_ptr input_image labels n pcs ps T)"
proof -
  let ?j = "region_of labels p"
  let ?c = "length (cells_of labels ps ?j)"
  have j: "?j < nat (sint n)" using v(2) by (simp add: valid_cell_def)
  have l: "length (pass_array oor heap img_ptr input_image labels n pcs ps T) = nat (sint n)"
    by (rule length_pass_array)
  have c: "Suc ?c < 2 ^ 64" using length_cells_of_le [of labels ps ?j] len by simp
  have pc: "pixel_count (pass_array oor heap img_ptr input_image labels n pcs ps T ! ?j) + 1
      = word_of_nat (Suc ?c)"
    by (simp add: pass_pixel_count [OF v(1) j])
  have nz: "(word_of_nat (Suc ?c) :: c_ulong) \<noteq> 0"
    using c word_of_nat_64_eq_0 [of "Suc ?c"] by simp
  have eq: "(word_of_nat (Suc ?c) = pcs (int ?j)) \<longleftrightarrow> Suc ?c = unat (pcs (int ?j))"
  proof
    assume "word_of_nat (Suc ?c) = pcs (int ?j)"
    then have "unat (word_of_nat (Suc ?c) :: c_ulong) = unat (pcs (int ?j))" by simp
    then show "Suc ?c = unat (pcs (int ?j))" using c by (simp only: unat_word_of_nat_64)
  next
    assume "Suc ?c = unat (pcs (int ?j))"
    then show "word_of_nat (Suc ?c) = pcs (int ?j)" by simp
  qed
  have new: "pass_array oor heap img_ptr input_image labels n pcs (ps @ [p]) T ! ?j
      = accumulate img_ptr input_image (fst p) (snd p)
          (pass_array oor heap img_ptr input_image labels n pcs ps T ! ?j)"
    using j l by (simp add: pass_snoc(1) [OF v])
  show ?thesis
    unfolding pass_snoc(2) [OF v] new pc
    using nz eq by (simp add: cells_of_snoc)
qed

lemma pass_table_sum:
  assumes "valid_cells labels n ps" and "length ps < 2 ^ 64"
  shows "table_sum (\<lambda>r. h (pixel_count r))
      (pass_table oor heap img_ptr input_image labels n pcs ps T)
     = table_sum (\<lambda>r. h (pixel_count r)) T
       + (\<Sum>i<nat (sint n). if fired labels pcs ps i then h (pcs (int i)) else 0)"
  using assms
proof (induction ps rule: rev_induct)
  case Nil
  have "\<And>i. \<not> fired labels pcs [] i" by (simp add: fired_def)
  then show ?case by (simp add: pass_nil)
next
  case (snoc p ps)
  let ?j = "region_of labels p"
  let ?N = "nat (sint n)"
  have v: "valid_cells labels n ps" "valid_cell labels (nat (sint n)) p"
    using snoc.prems by simp_all
  have len: "length ps < 2 ^ 64" using snoc.prems(2) by simp
  have j: "?j < ?N" using v(2) by (simp add: valid_cell_def)
  let ?hit = "length (cells_of labels (ps @ [p]) ?j) = unat (pcs (int ?j))"
  have g: "(\<Sum>i<?N. if fired labels pcs (ps @ [p]) i then h (pcs (int i)) else 0)
      = (\<Sum>i<?N. (if fired labels pcs ps i then h (pcs (int i)) else 0)
                  + (if i = ?j then (if ?hit then h (pcs (int ?j)) else 0) else 0))"
    by (rule sum.cong) (auto simp: fired_def cells_of_snoc)
  have g': "\<dots> = (\<Sum>i<?N. if fired labels pcs ps i then h (pcs (int i)) else 0)
      + (if ?hit then h (pcs (int ?j)) else 0)"
    using j by (simp add: sum.distrib sum.delta)
  have newpc: "pixel_count (pass_array oor heap img_ptr input_image labels n pcs (ps @ [p]) T ! ?j)
      = word_of_nat (length (cells_of labels (ps @ [p]) ?j))"
    using pass_pixel_count [OF snoc.prems(1) j] .
  have t: "table_sum (\<lambda>r. h (pixel_count r))
      (pass_table oor heap img_ptr input_image labels n pcs (ps @ [p]) T)
      = table_sum (\<lambda>r. h (pixel_count r))
          (pass_table oor heap img_ptr input_image labels n pcs ps T)
        + (if ?hit then h (pcs (int ?j)) else 0)"
    unfolding pass_step_fires [OF v snoc.prems(2)]
    by (simp add: table_sum_push_back newpc)
  show ?case
    unfolding t g g' snoc.IH [OF v(1) len] by simp
qed

lemma nat_sint_32: "nat (sint (w :: c_int)) < 2 ^ 31"
  using sint_less [of w] by simp

lemma grid_cells_coords: "p \<in> set (grid_cells m) \<Longrightarrow> fst p < 2 ^ 31 \<and> snd p < 2 ^ 31"
  using nat_sint_32 [of "rows m"] nat_sint_32 [of "cols m"]
  by (auto simp: grid_cells_def)

lemma length_grid_cells: "length (grid_cells m) = nat (sint (rows m)) * nat (sint (cols m))"
  by (simp add: grid_cells_def)

lemma length_grid_cells_less: "length (grid_cells m) < 2 ^ 64"
proof -
  have "nat (sint (rows m)) * nat (sint (cols m)) \<le> 2 ^ 31 * 2 ^ 31"
    using nat_sint_32 [of "rows m"] nat_sint_32 [of "cols m"]
    by (intro mult_mono) simp_all
  also have "\<dots> < (2 ^ 64 :: nat)" by simp
  finally show ?thesis by (simp add: length_grid_cells)
qed

lemma prefix_coords: "p \<in> set (take k (grid_cells m)) \<Longrightarrow> fst p < 2 ^ 31 \<and> snd p < 2 ^ 31"
  using grid_cells_coords [of p m] by (auto dest: in_set_takeD)

lemma prefix_length: "length (take k (grid_cells m)) < 2 ^ 64"
  using length_grid_cells_less [of m] by simp

lemma Hash_loop_entries:
  assumes "all_entries P T"
    and "\<And>r. pixel_count r \<noteq> 0 \<Longrightarrow> P (calculate_hash_key oor r) r"
  shows "all_entries P (snd (Hash_loop oor img_ptr input_image labels pcs ps sps T))"
  using assms(1)
proof (induction ps arbitrary: sps T)
  case Nil
  then show ?case by simp
next
  case (Cons p ps)
  let ?sp = "sint (elem_at labels (fst p) (snd p))"
  let ?r = "accumulate img_ptr input_image (fst p) (snd p) (sps ?sp)"
  let ?T = "if pixel_count (sps ?sp) + 1 = pcs ?sp \<and> pixel_count (sps ?sp) + 1 \<noteq> 0
     then push_back T (calculate_hash_key oor ?r) ?r else T"
  have "pixel_count (sps ?sp) + 1 \<noteq> 0 \<Longrightarrow>
      all_entries P (push_back T (calculate_hash_key oor ?r) ?r)"
    using Cons.prems assms(2) [of ?r] by (intro all_entries_push_back) (simp_all add: accumulate_fields)
  then have t: "all_entries P ?T"
    using Cons.prems by (simp only: split: if_split) blast
  have "Hash_loop oor img_ptr input_image labels pcs (p # ps) sps T
      = Hash_loop oor img_ptr input_image labels pcs ps (sps(?sp := ?r)) ?T"
    by (simp add: Hash_body_eq)
  then show ?case using Cons.IH [OF t] by simp
qed

lemma Hash_pass_table:
  "Hash oor heap img_ptr input_image labels n pcs T
      = pass_table oor heap img_ptr input_image labels n pcs (grid_cells labels) T"
  by (simp add: Hash_def pass_table_def)

lemma table_sum_empty [simp]: "table_sum f Map.empty = 0"
  by (simp add: table_sum_def bucket_def)

lemma fired_count:
  "(\<Sum>i<N. if fired labels pcs ps i then (1::nat) else 0) = card {i. i < N \<and> fired labels pcs ps i}"
proof -
  have "(\<Sum>i<N. if fired labels pcs ps i then (1::nat) else 0)
      = (\<Sum>i\<in>{i \<in> {..<N}. fired labels pcs ps i}. 1)"
    by (simp add: sum.If_cases Int_def)
  also have "\<dots> = card {i. i < N \<and> fired labels pcs ps i}" by simp
  finally show ?thesis .
qed

lemma cells_of_take_mono:
  "j \<le> k \<Longrightarrow> length (cells_of labels (take j g) i) \<le> length (cells_of labels (take k g) i)"
proof -
  assume "j \<le> k"
  then have "take k g = take j g @ take (k - j) (drop j g)"
    by (metis le_add_diff_inverse take_add)
  then show ?thesis by (simp add: cells_of_def)
qed

lemma take_Suc_snoc: "k < length g \<Longrightarrow> take (Suc k) g = take k g @ [g ! k]"
  by (rule take_Suc_conv_app_nth)

lemma push_back_neq: "push_back T k r \<noteq> T"
proof
  assume "push_back T k r = T"
  then have "bucket (push_back T k r) k = bucket T k" by simp
  then show False by (simp add: bucket_push_back)
qed

lemma valid_cells_take:
  "valid_cells labels n (take k g) \<Longrightarrow> j \<le> k \<Longrightarrow> valid_cells labels n (take j g)"
  using set_take_subset_set_take [of j k g] by (auto simp: valid_cells_def)

lemma pass_step_grid:
  assumes "valid_cells labels n (take (Suc k) (grid_cells labels))" and "k < length (grid_cells labels)"
  shows "pass_table oor heap img_ptr input_image labels n pcs (take (Suc k) (grid_cells labels)) T =
     (if length (cells_of labels (take (Suc k) (grid_cells labels)) (region_of labels (grid_cells labels ! k)))
           = unat (pcs (int (region_of labels (grid_cells labels ! k))))
      then push_back
          (pass_table oor heap img_ptr input_image labels n pcs (take k (grid_cells labels)) T)
             (calculate_hash_key oor
                (pass_array oor heap img_ptr input_image labels n pcs (take (Suc k) (grid_cells labels)) T
                   ! region_of labels (grid_cells labels ! k)))
             (pass_array oor heap img_ptr input_image labels n pcs (take (Suc k) (grid_cells labels)) T
                ! region_of labels (grid_cells labels ! k))
      else pass_table oor heap img_ptr input_image labels n pcs (take k (grid_cells labels)) T)"
proof -
  let ?g = "grid_cells labels"
  have t: "take (Suc k) ?g = take k ?g @ [?g ! k]" by (rule take_Suc_snoc [OF assms(2)])
  have v: "valid_cells labels n (take k ?g)" "valid_cell labels (nat (sint n)) (?g ! k)"
    using assms(1) unfolding t by simp_all
  have len: "length (take k ?g @ [?g ! k]) < 2 ^ 64"
    using prefix_length [of "Suc k" labels] unfolding t .
  show ?thesis unfolding t by (rule pass_step_fires [OF v len])
qed

lemma pass_table_count:
  assumes "valid_cells labels n ps" and "length ps < 2 ^ 64"
  shows "table_sum (\<lambda>r. 1) (pass_table oor heap img_ptr input_image labels n pcs ps T)
     = table_sum (\<lambda>r. 1) T + card {i. i < nat (sint n) \<and> fired labels pcs ps i}"
  using pass_table_sum [OF assms, of "\<lambda>w. 1" oor heap img_ptr input_image pcs T]
  by (simp add: fired_count)

lemma pass_nonempty_iff:
  assumes "valid_cells labels n ps" and "i < nat (sint n)" and "length ps < 2 ^ 64"
  shows "pixel_count (pass_array oor heap img_ptr input_image labels n pcs ps T ! i) \<noteq> 0
     \<longleftrightarrow> cells_of labels ps i \<noteq> []"
proof -
  have "length (cells_of labels ps i) < 2 ^ 64"
    using length_cells_of_le [of labels ps i] assms(3) by simp
  then show ?thesis
    by (simp add: pass_pixel_count [OF assms(1) assms(2)] word_of_nat_64_eq_0)
qed

lemma all_entries_empty [simp]: "all_entries P Map.empty"
  by (simp add: all_entries_def bucket_def)

lemma Hash_loop_owner:
  assumes "all_entries (\<lambda>k r. original_image r \<in> S) T" and "img_ptr \<in> S"
    and "\<forall>p\<in>set ps. valid_cell labels N p"
    and "\<forall>i<N. pixel_count (sps (int i)) \<noteq> 0 \<longrightarrow> original_image (sps (int i)) = img_ptr"
  shows "all_entries (\<lambda>k r. original_image r \<in> S) (snd (Hash_loop oor img_ptr input_image labels pcs ps sps T))"
  using assms(1) assms(3) assms(4)
proof (induction ps arbitrary: sps T)
  case Nil
  then show ?case by simp
next
  case (Cons p ps)
  let ?i = "region_of labels p"
  let ?r = "accumulate img_ptr input_image (fst p) (snd p) (sps (int ?i))"
  let ?T = "if pixel_count (sps (int ?i)) + 1 = pcs (int ?i) \<and> pixel_count (sps (int ?i)) + 1 \<noteq> 0
     then push_back T (calculate_hash_key oor ?r) ?r else T"
  have v: "valid_cell labels N p" using Cons.prems(2) by simp
  have i: "?i < N" using v by (simp add: valid_cell_def)
  have sp: "sint (elem_at labels (fst p) (snd p)) = int ?i"
    using label_of_valid [OF v] by (simp add: label_of_def)
  have o: "original_image ?r = img_ptr"
    using Cons.prems(3) i by (auto simp: accumulate_fields)
  have "all_entries (\<lambda>k r. original_image r \<in> S) (push_back T (calculate_hash_key oor ?r) ?r)"
    using Cons.prems(1) assms(2) o by (intro all_entries_push_back) simp_all
  then have t: "all_entries (\<lambda>k r. original_image r \<in> S) ?T"
    using Cons.prems(1) by (simp only: split: if_split) blast
  have s: "\<forall>i<N. pixel_count ((sps(int ?i := ?r)) (int i)) \<noteq> 0 \<longrightarrow>
      original_image ((sps(int ?i := ?r)) (int i)) = img_ptr"
    using Cons.prems(3) o by simp
  have rest: "\<forall>q\<in>set ps. valid_cell labels N q" using Cons.prems(2) by simp
  have eq: "Hash_loop oor img_ptr input_image labels pcs (p # ps) sps T
      = Hash_loop oor img_ptr input_image labels pcs ps (sps(int ?i := ?r)) ?T"
    unfolding Hash_loop.simps Hash_body_eq sp prod.case ..
  show ?case unfolding eq by (rule Cons.IH [OF t rest s])
qed

lemma Hash_owner_nonnull:
  assumes "all_entries (\<lambda>k r. original_image r \<noteq> 0) T" and "img_ptr \<noteq> 0"
    and "valid_cells labels n (grid_cells labels)"
  shows "all_entries (\<lambda>k r. original_image r \<noteq> 0) (Hash oor heap img_ptr input_image labels n pcs T)"
proof -
  have a: "all_entries (\<lambda>k r. original_image r \<in> {p. p \<noteq> 0}) T" using assms(1) by simp
  have b: "img_ptr \<in> {p. p \<noteq> 0}" using assms(2) by simp
  have v: "\<forall>p\<in>set (grid_cells labels). valid_cell labels (nat (sint n)) p"
    using assms(3) by (simp add: valid_cells_def)
  have c: "\<forall>i<nat (sint n).
      pixel_count (array_ptr (replicate (nat (sint n)) zero_key) heap (int i)) \<noteq> 0 \<longrightarrow>
      original_image (array_ptr (replicate (nat (sint n)) zero_key) heap (int i)) = img_ptr"
    by (auto simp: array_ptr_def zero_key_def)
  from Hash_loop_owner [OF a b v c, of oor input_image pcs]
  show ?thesis by (simp add: Hash_def Hash_pass_def)
qed

lemma Hash_keys_consistent:
  assumes "all_entries (\<lambda>k r. calculate_hash_key oor r = k) T"
  shows "all_entries (\<lambda>k r. calculate_hash_key oor r
      = k) (Hash oor heap img_ptr input_image labels n pcs T)"
  using Hash_loop_entries [OF assms, of oor img_ptr input_image labels pcs "grid_cells labels"
      "array_ptr (replicate (nat (sint n)) zero_key) heap"]
  by (simp add: Hash_def Hash_pass_def)

lemma cells_of_prefix_le:
  "length (cells_of labels (take k g) i) \<le> length (cells_of labels g i)"
  using cells_of_take_mono [of k "max k (length g)" labels g i] by simp

lemma pass_table_records_complete:
  assumes v: "valid_cells labels n (grid_cells labels)"
    and c: "\<forall>i<nat (sint n). pcs (int i)
        = word_of_nat (length (cells_of labels (grid_cells labels) i))"
    and k: "k \<le> length (grid_cells labels)"
    and r: "r \<in> set (bucket
        (pass_table oor heap img_ptr input_image labels n pcs (take k (grid_cells labels)) T) key)"
  shows "r \<in> set (bucket T key)
     \<or> (\<exists>i<nat (sint n).
           r
               = pass_array oor heap img_ptr input_image labels n pcs (take k (grid_cells labels)) T ! i
           \<and> length (cells_of labels (take k (grid_cells labels)) i) = length (cells_of labels (grid_cells labels) i)
           \<and> cells_of labels (grid_cells labels) i \<noteq> [])"
  using k r
proof (induction k arbitrary: r key)
  case 0
  then show ?case by (simp add: pass_nil)
next
  case (Suc k)
  let ?g = "grid_cells labels"
  let ?N = "nat (sint n)"
  let ?j = "region_of labels (?g ! k)"
  let ?arr = "\<lambda>m. pass_array oor heap img_ptr input_image labels n pcs (take m ?g) T"
  let ?tab = "\<lambda>m. pass_table oor heap img_ptr input_image labels n pcs (take m ?g) T"
  have kl: "k < length ?g" using Suc.prems(1) by simp
  have t: "take (Suc k) ?g = take k ?g @ [?g ! k]" by (rule take_Suc_snoc [OF kl])
  have vS: "valid_cells labels n (take (Suc k) ?g)"
    using v set_take_subset [of "Suc k" ?g] by (auto simp: valid_cells_def)
  have vk: "valid_cells labels n (take k ?g)" "valid_cell labels ?N (?g ! k)"
    using vS unfolding t by simp_all
  have j: "?j < ?N" using vk(2) by (simp add: valid_cell_def)
  have tot: "length (cells_of labels ?g i) < 2 ^ 64" for i
    using length_cells_of_le [of labels ?g i] length_grid_cells_less [of labels] by simp
  have e: "unat (pcs (int ?j)) = length (cells_of labels ?g ?j)"
    using c j tot [of ?j] by (simp add: unat_word_of_nat_64)
  have grow: "length (cells_of labels (take (Suc k) ?g) ?j)
      = Suc (length (cells_of labels (take k ?g) ?j))"
    by (simp add: t cells_of_snoc)
  have lk: "length (?arr k) = ?N" by (rule length_pass_array)
  have arrS: "?arr (Suc k)
      = (?arr k)[?j := accumulate img_ptr input_image (fst (?g ! k)) (snd (?g ! k)) (?arr k ! ?j)]"
    unfolding t by (rule pass_snoc(1) [OF vk])
  note step = pass_step_grid [OF vS kl, of oor heap img_ptr input_image pcs T]
  have old: "r \<in> set (bucket T key)
     \<or> (\<exists>i<?N. r = ?arr (Suc k) ! i
           \<and> length (cells_of labels (take (Suc k) ?g) i) = length (cells_of labels ?g i)
           \<and> cells_of labels ?g i \<noteq> [])"
    if "r \<in> set (bucket (?tab k) key)"
  proof -
    from Suc.IH [OF _ that] kl
    consider "r \<in> set (bucket T key)"
      | i where "i < ?N" "r = ?arr k ! i"
          "length (cells_of labels (take k ?g) i) = length (cells_of labels ?g i)"
          "cells_of labels ?g i \<noteq> []"
      by auto
    then show ?thesis
    proof cases
      case 1
      then show ?thesis by simp
    next
      case 2
      have "i \<noteq> ?j"
      proof
        assume "i = ?j"
        then have "length (cells_of labels (take (Suc k) ?g) ?j)
            = Suc (length (cells_of labels ?g ?j))"
          using 2(3) grow by simp
        then show False using cells_of_prefix_le [of labels "Suc k" ?g ?j] by simp
      qed
      then have a: "?arr (Suc k) ! i = ?arr k ! i" by (simp add: arrS)
      have "cells_of labels (take (Suc k) ?g) i = cells_of labels (take k ?g) i"
        using \<open>i \<noteq> ?j\<close> by (simp add: t cells_of_snoc)
      then show ?thesis using 2 a by auto
    qed
  qed
  show ?case
  proof (cases "length (cells_of labels (take (Suc k) ?g) ?j) = unat (pcs (int ?j))")
    case False
    then have "?tab (Suc k) = ?tab k" using step by simp
    then show ?thesis using Suc.prems(2) old by simp
  next
    case True
    then have "?tab (Suc k)
        = push_back (?tab k) (calculate_hash_key oor (?arr (Suc k) ! ?j)) (?arr (Suc k) ! ?j)"
      using step by simp
    then have "r \<in> set (bucket (?tab k) key) \<or> r = ?arr (Suc k) ! ?j"
      using Suc.prems(2) by (auto simp: bucket_push_back split: if_splits)
    then show ?thesis
    proof
      assume "r \<in> set (bucket (?tab k) key)"
      then show ?thesis by (rule old)
    next
      assume n: "r = ?arr (Suc k) ! ?j"
      have "length (cells_of labels (take (Suc k) ?g) ?j) = length (cells_of labels ?g ?j)"
        using True e by simp
      moreover from this have "cells_of labels ?g ?j \<noteq> []" using grow by auto
      ultimately show ?thesis using n j by blast
    qed
  qed
qed

lemma Hash_records_contain_region:
  assumes v: "valid_cells labels n (grid_cells labels)"
    and c: "\<forall>i<nat (sint n). pcs (int i)
        = word_of_nat (length (cells_of labels (grid_cells labels) i))"
    and r: "r \<in> set (bucket (Hash oor heap img_ptr input_image labels n pcs T) key)"
  shows "r \<in> set (bucket T key)
     \<or> (\<exists>i<nat (sint n). cells_of labels (grid_cells labels) i \<noteq> []
           \<and> r = pass_array oor heap img_ptr input_image labels n pcs (grid_cells labels) T ! i
           \<and> (\<forall>p\<in>set (cells_of labels (grid_cells labels) i). in_box r p))"
proof -
  let ?g = "grid_cells labels"
  have r': "r \<in> set (bucket
      (pass_table oor heap img_ptr input_image labels n pcs (take (length ?g) ?g) T) key)"
    using r by (simp add: Hash_pass_table)
  from pass_table_records_complete [OF v c _ r']
  consider "r \<in> set (bucket T key)"
    | i where "i < nat (sint n)" "r = pass_array oor heap img_ptr input_image labels n pcs ?g T ! i"
        "cells_of labels ?g i \<noteq> []"
    by auto
  then show ?thesis
  proof cases
    case 1
    then show ?thesis by simp
  next
    case 2
    have "in_box (pass_array oor heap img_ptr input_image labels n pcs ?g T ! i) p"
      if "p \<in> set (cells_of labels ?g i)" for p
      by (rule pass_in_box [OF v 2(1) length_grid_cells_less _ that]) (use grid_cells_coords in blast)
    then have "\<forall>p\<in>set (cells_of labels ?g i). in_box r p" unfolding 2(2) by blast
    then show ?thesis using 2 by blast
  qed
qed

lemma store_outside:
  "valid_cells labels n ps \<Longrightarrow> i < 0 \<or> sint n \<le> i \<Longrightarrow>
     pass_store oor heap img_ptr input_image labels n pcs ps T i = heap i"
proof (induction ps rule: rev_induct)
  case Nil
  then show ?case by (auto simp: pass_store_nil array_ptr_def)
next
  case (snoc p ps)
  have v: "valid_cells labels n ps" "valid_cell labels (nat (sint n)) p"
    using snoc.prems(1) by simp_all
  have "region_of labels p < nat (sint n)" using v(2) by (simp add: valid_cell_def)
  then have "label_of labels p \<noteq> i"
    using snoc.prems(2) label_of_valid [OF v(2)] by auto
  then show ?case using snoc.IH [OF v(1) snoc.prems(2)] by (simp add: pass_store_snoc)
qed









section \<open>Properties of the retrieval\<close>

lemma map_incr_keys: "fst ` set (map_incr p mc) = insert p (fst ` set mc)"
  by (induction p mc rule: map_incr.induct) auto

lemma ascending_map_incr: "ascending mc \<Longrightarrow> ascending (map_incr p mc)"
proof (induction mc)
  case Nil
  then show ?case by (simp add: ascending_def)
next
  case (Cons kv mc)
  obtain k v where kv: "kv = (k, v)" by (cases kv)
  have a: "ascending mc" and lt: "\<forall>x\<in>fst ` set mc. k < x"
    using Cons.prems by (auto simp: ascending_def kv)
  show ?case
  proof (cases "p = k \<or> p < k")
    case True
    then show ?thesis using Cons.prems by (auto simp: ascending_def kv)
  next
    case False
    then have "k < p" by simp
    then have "\<forall>x\<in>fst ` set (map_incr p mc). k < x" using lt by (simp add: map_incr_keys)
    then show ?thesis using Cons.IH [OF a] False by (auto simp: ascending_def kv)
  qed
qed

lemma votes_absent: "p \<notin> fst ` set mc \<Longrightarrow> votes mc p = 0"
  using map_of_eq_None_iff [of mc p] by (simp add: votes_def)

lemma votes_map_incr:
  "ascending mc \<Longrightarrow> votes (map_incr p mc) p' = votes mc p' + (if p' = p then 1 else 0)"
proof (induction mc)
  case Nil
  then show ?case by (simp add: votes_def)
next
  case (Cons kv mc)
  obtain k v where kv: "kv = (k, v)" by (cases kv)
  have a: "ascending mc" and lt: "\<forall>x\<in>fst ` set mc. k < x"
    using Cons.prems by (auto simp: ascending_def kv)
  show ?case
  proof (cases "p = k")
    case True
    then show ?thesis by (simp add: kv votes_def)
  next
    case False
    show ?thesis
    proof (cases "p < k")
      case True
      then have "p \<notin> fst ` set (kv # mc)" using lt by (auto simp: kv)
      then have "votes (kv # mc) p = 0" by (rule votes_absent)
      then show ?thesis using True False by (auto simp: kv votes_def)
    next
      case nlt: False
      have "votes (map_incr p mc) p' = votes mc p' + (if p' = p then 1 else 0)"
        by (rule Cons.IH [OF a])
      then show ?thesis using False nlt by (auto simp: kv votes_def)
    qed
  qed
qed

lemma vote_bucket_props:
  "ascending mc \<Longrightarrow>
     ascending (vote_bucket ms mc)
     \<and> votes (vote_bucket ms mc) p
         = votes mc p + word_of_nat (length (filter (\<lambda>m. original_image m = p) ms))
     \<and> fst ` set (vote_bucket ms mc) = fst ` set mc \<union> original_image ` set ms"
proof (induction ms arbitrary: mc)
  case Nil
  then show ?case by (simp add: vote_bucket_def)
next
  case (Cons m ms)
  have a: "ascending (map_incr (original_image m) mc)" by (rule ascending_map_incr [OF Cons.prems])
  have u: "vote_bucket (m # ms) mc = vote_bucket ms (map_incr (original_image m) mc)"
    by (simp add: vote_bucket_def)
  show ?case
    unfolding u using Cons.IH [OF a] 
    by (auto simp: votes_map_incr [OF Cons.prems] map_incr_keys)
qed

lemma colliding_pairs_snoc:
  "colliding_pairs oor T (qs @ [q]) p = colliding_pairs oor T qs p @ colliding_pairs oor T [q] p"
  by (simp add: colliding_pairs_def)

lemma collisions_snoc:
  "collisions oor T (qs @ [q]) p = collisions oor T qs p + collisions oor T [q] p"
  by (simp add: collisions_def colliding_pairs_snoc)

lemma collisions_single:
  "collisions oor T [q] p =
     (if calculate_hash_key oor q = - 1 then 0
      else length (filter (\<lambda>m. original_image m = p) (bucket T (calculate_hash_key oor q))))"
  by (simp add: collisions_def colliding_pairs_def)

lemma collisions_nil [simp]: "collisions oor T [] p = 0"
  by (simp add: collisions_def colliding_pairs_def)

lemma vote_query_props:
  assumes "ascending mc"
  shows "ascending (vote_query oor T mc q)
     \<and> votes (vote_query oor T mc q) p = votes mc p + word_of_nat (collisions oor T [q] p)
     \<and> (p \<in> fst ` set (vote_query oor T mc q) \<longleftrightarrow> p \<in> fst ` set mc \<or> 0 < collisions oor T [q] p)"
proof (cases "calculate_hash_key oor q = - 1")
  case True
  then show ?thesis using assms by (simp add: vote_query_def collisions_single)
next
  case False
  let ?k = "calculate_hash_key oor q"
  have v: "vote_query oor T mc q = vote_bucket (bucket T ?k) mc"
    using False by (simp add: vote_query_def bucket_def vote_bucket_def split: option.splits)
  have "0 < length (filter (\<lambda>m. original_image m = p) (bucket T ?k))
      \<longleftrightarrow> p \<in> original_image ` set (bucket T ?k)"
    by (auto simp: filter_empty_conv)
  then show ?thesis
    unfolding v using vote_bucket_props [OF assms, of "bucket T ?k" p] False
    by (simp add: collisions_single)
qed

lemma match_counts_snoc:
  "match_counts oor T (qs @ [q]) = vote_query oor T (match_counts oor T qs) q"
  by (simp add: match_counts_def)

lemma match_counts_props:
  "ascending (match_counts oor T qs)
   \<and> votes (match_counts oor T qs) p = word_of_nat (collisions oor T qs p)
   \<and> (p \<in> fst ` set (match_counts oor T qs) \<longleftrightarrow> 0 < collisions oor T qs p)"
proof (induction qs rule: rev_induct)
  case Nil
  then show ?case by (simp add: match_counts_def ascending_def votes_def)
next
  case (snoc q qs)
  have a: "ascending (match_counts oor T qs)" using snoc by simp
  show ?case
    unfolding match_counts_snoc collisions_snoc
    using vote_query_props [OF a, of oor T q p] snoc by auto
qed

lemma votes_entry: "ascending mc \<Longrightarrow> (p, c) \<in> set mc \<Longrightarrow> votes mc p = c"
proof -
  assume "ascending mc" and e: "(p, c) \<in> set mc"
  then have "distinct (map fst mc)" by (simp add: ascending_def strict_sorted_iff)
  then have "map_of mc p = Some c" using e by (rule map_of_is_SomeI)
  then show ?thesis by (simp add: votes_def)
qed

lemma best_match_loop_props:
  "best_match_loop mc (b0, m0) = (b, m) \<Longrightarrow>
     sint m0 \<le> sint m
     \<and> (\<forall>e\<in>set mc. sint (snd e) \<le> sint m)
     \<and> ((b, m) = (b0, m0) \<or> (b, m) \<in> set mc)
     \<and> ((\<exists>e\<in>set mc. sint m0 < sint (snd e)) \<longrightarrow> (b, m) \<in> set mc \<and> sint m0 < sint m)"
proof (induction mc arbitrary: b0 m0)
  case Nil
  then show ?case by simp
next
  case (Cons e mc)
  obtain p c where e: "e = (p, c)" by (cases e)
  show ?case
  proof (cases "sint m0 < sint c")
    case True
    then have "best_match_loop mc (p, c) = (b, m)" using Cons.prems by (simp add: e)
    from Cons.IH [OF this] True show ?thesis by (auto simp: e)
  next
    case False
    then have "best_match_loop mc (b0, m0) = (b, m)" using Cons.prems by (simp add: e)
    from Cons.IH [OF this] False show ?thesis by (auto simp: e)
  qed
qed

lemma collisions_owner:
  "0 < collisions oor T qs p \<Longrightarrow> \<exists>k. \<exists>m\<in>set (bucket T k). original_image m = p"
proof (induction qs rule: rev_induct)
  case Nil
  then show ?case by simp
next
  case (snoc q qs)
  show ?case
  proof (cases "0 < collisions oor T qs p")
    case True
    then show ?thesis by (rule snoc.IH)
  next
    case False
    then have "0 < collisions oor T [q] p" using snoc.prems by (simp add: collisions_snoc)
    then have "filter (\<lambda>m. original_image m = p) (bucket T (calculate_hash_key oor q)) \<noteq> []"
      by (auto simp: collisions_single split: if_splits)
    then show ?thesis by (auto simp: filter_empty_conv)
  qed
qed

lemma collisions_le:
  "collisions oor T qs p \<le> sum_list (map (\<lambda>q. length (bucket T (calculate_hash_key oor q))) qs)"
proof (induction qs rule: rev_induct)
  case Nil
  then show ?case by simp
next
  case (snoc q qs)
  have "collisions oor T [q] p \<le> length (bucket T (calculate_hash_key oor q))"
    by (simp add: collisions_single)
  then show ?case using snoc by (simp add: collisions_snoc)
qed

lemma set_colliding_pairs:
  "set (colliding_pairs oor T qs p) =
     {(q, m). q \<in> set qs \<and> calculate_hash_key oor q \<noteq> - 1
        \<and> m \<in> set (bucket T (calculate_hash_key oor q)) \<and> original_image m = p}"
  by (auto simp: colliding_pairs_def split: if_splits)

section \<open>Theorems for the claims of the specification\<close>

text \<open>
  C1. For a record with a non-zero pixel count the key is the mixed-radix number of five
  bucket indices in the order colour channel 1, 2, 3, spatial x, spatial y: read as a
  signed \<^verbatim>\<open>int\<close> it is \<open>spec_key\<close>, that is
  \<open>i\<^sub>0 \<sqdot> 25600 + i\<^sub>1 \<sqdot> 1600 + i\<^sub>2 \<sqdot> 100 + i\<^sub>3 \<sqdot> 10 + i\<^sub>4\<close>. Each index is
  the axis value divided (in \<^verbatim>\<open>float\<close>) by the width of the axis's buckets, converted to
  \<^verbatim>\<open>int\<close> and clamped into \<open>[0, count - 1]\<close>. The widths of the two spatial axes are
  \<open>3840 div 10\<close> and \<open>2160 div 10\<close>, constants of the class; the key does not depend on the
  image the record points to. For coordinates in \<open>[0, 2\<^sup>2\<^sup>3)\<close> the two spatial axis
  values are exactly the midpoints of the bounding box.
\<close>

theorem calculate_hash_key_mixed_radix:
  assumes "pixel_count key \<noteq> 0"
  shows "sint (calculate_hash_key oor key) = spec_key oor key
    \<and> spec_key oor key =
        bucket_indices oor key ! 0 * 25600 + bucket_indices oor key ! 1 * 1600
        + bucket_indices oor key ! 2 * 100 + bucket_indices oor key ! 3 * 10 + bucket_indices oor key ! 4
    \<and> bucket_indices oor key =
        map (\<lambda>j. clamp 0 (bucket_counts ! j - 1)
               (sint (float_to_int oor (float_div (axis_values key ! j) (float_of_int (bucket_widths ! j))))))
          [0, 1, 2, 3, 4]
    \<and> (\<forall>j<5. 0 \<le> bucket_indices oor key ! j \<and> bucket_indices oor key ! j < bucket_counts ! j)
    \<and> bucket_counts = map sint dims
    \<and> bucket_widths = [sint lab_bucket_size, sint lab_bucket_size, sint lab_bucket_size,
         sint max_img_w div sint x_buckets, sint max_img_h div sint y_buckets]
    \<and> sint max_img_w = 3840 \<and> sint max_img_h = 2160
    \<and> calculate_hash_key oor (key\<lparr>original_image := img\<rparr>) = calculate_hash_key oor key
    \<and> (0 \<le> sint (fst (x_range key)) \<and> sint (fst (x_range key)) < 2 ^ 23
         \<and> 0 \<le> sint (snd (x_range key)) \<and> sint (snd (x_range key)) < 2 ^ 23 \<longrightarrow>
       axis_values key ! 3
           = (of_int (sint (fst (x_range key))) + of_int (sint (snd (x_range key)))) / 2)
    \<and> (0 \<le> sint (fst (y_range key)) \<and> sint (fst (y_range key)) < 2 ^ 23
         \<and> 0 \<le> sint (snd (y_range key)) \<and> sint (snd (y_range key)) < 2 ^ 23 \<longrightarrow>
       axis_values key ! 4
           = (of_int (sint (fst (y_range key))) + of_int (sint (snd (y_range key)))) / 2)"
proof -
  have 1: "sint (calculate_hash_key oor key) = spec_key oor key" using assms by (rule sint_key)
  have 2: "\<forall>j<5. 0 \<le> bucket_indices oor key ! j \<and> bucket_indices oor key ! j < bucket_counts ! j"
    using bucket_indices_range by blast
  have 3: "0 \<le> sint (fst (x_range key)) \<and> sint (fst (x_range key)) < 2 ^ 23
         \<and> 0 \<le> sint (snd (x_range key)) \<and> sint (snd (x_range key)) < 2 ^ 23 \<longrightarrow>
       axis_values key ! 3
           = (of_int (sint (fst (x_range key))) + of_int (sint (snd (x_range key)))) / 2"
    using midpoint_exact [of "fst (x_range key)" "snd (x_range key)"] by (simp add: axis_values_def)
  have 4: "0 \<le> sint (fst (y_range key)) \<and> sint (fst (y_range key)) < 2 ^ 23
         \<and> 0 \<le> sint (snd (y_range key)) \<and> sint (snd (y_range key)) < 2 ^ 23 \<longrightarrow>
       axis_values key ! 4
           = (of_int (sint (fst (y_range key))) + of_int (sint (snd (y_range key)))) / 2"
    using midpoint_exact [of "fst (y_range key)" "snd (y_range key)"] by (simp add: axis_values_def)
  show ?thesis
    using 1 2 3 4 spec_key_positional [of oor key] bucket_indices_eq [of oor key]
      widths_from_constants key_ignores_image [of oor img key]
    by (intro conjI) 
qed

theorem calculate_hash_key_mixed_radix_witness:
  "pixel_count example_key \<noteq> 0
   \<and> sint (calculate_hash_key x86_oor example_key) = 19300
   \<and> bucket_indices x86_oor example_key = [0, 12, 1, 0, 0]
   \<and> axis_values example_key = [10, 200, 25, 3 / 2, 1 / 2]"
proof -
  have h: "pixel_count example_key \<noteq> 0" by (simp add: example_key_def)
  have b: "bucket_indices x86_oor example_key = [0, 12, 1, 0, 0]" by code_simp
  have a: "axis_values example_key = [10, 200, 25, 3 / 2, 1 / 2]" by code_simp
  from calculate_hash_key_mixed_radix [OF h, of x86_oor 0] h a b show ?thesis by simp
qed

text \<open>
  C2. For every record and whatever an out-of-range conversion yields: with a non-zero
  pixel count the key, read as a signed \<^verbatim>\<open>int\<close>, lies in \<open>[0, 409600)\<close>, and
  \<open>409600 = 16 \<sqdot> 16 \<sqdot> 16 \<sqdot> 10 \<sqdot> 10\<close> is the product of \<open>dims\<close>; with pixel count zero
  the key is the sentinel \<open>-1\<close>.
\<close>

theorem calculate_hash_key_range:
  "(pixel_count key \<noteq> 0 \<longrightarrow>
      0 \<le> sint (calculate_hash_key oor key) \<and> sint (calculate_hash_key oor key) < 409600)
   \<and> (pixel_count key = 0 \<longrightarrow> calculate_hash_key oor key = - 1)
   \<and> prod_list (map sint dims) = 409600"
  using spec_key_range [of oor key] key_sentinel_iff [of oor key]
  by (simp add: sint_key dims_values)

theorem calculate_hash_key_range_witness:
  "pixel_count extreme_key \<noteq> 0 \<and> sint (calculate_hash_key x86_oor extreme_key) = 9
   \<and> pixel_count zero_key = 0 \<and> calculate_hash_key x86_oor zero_key = - 1"
proof -
  have h: "pixel_count extreme_key \<noteq> 0" by (simp add: extreme_key_def)
  have z: "pixel_count zero_key = 0" by (simp add: zero_key_def)
  have v: "sint (calculate_hash_key x86_oor extreme_key) = 9" by code_simp
  from calculate_hash_key_range [of zero_key x86_oor] calculate_hash_key_range [of extreme_key x86_oor]
    h z v show ?thesis by simp
qed

text \<open>
  C3. After the query records \<open>qs\<close> the count of an image \<open>p\<close> is the number of pairs of a
  query record with a key other than the sentinel and a record of the bucket of that key
  owned by \<open>p\<close> (as a 32-bit \<^verbatim>\<open>int\<close>; the number itself while it is below \<open>2\<^sup>3\<^sup>1\<close>). One more
  query record adds one vote for every record of \<open>p\<close> in its bucket, none when its key is
  the sentinel; an image has an entry exactly when it has a vote. In a table where every
  record lies in the bucket of its own key the two records of a pair have equal keys.
\<close>

theorem votes_count_colliding_records:
  "votes (match_counts oor T qs) p = word_of_nat (collisions oor T qs p)
   \<and> (collisions oor T qs p < 2 ^ 31 \<longrightarrow>
        sint (votes (match_counts oor T qs) p) = int (collisions oor T qs p))
   \<and> votes (match_counts oor T (qs @ [q])) p
       = votes (match_counts oor T qs) p
         + word_of_nat
             (if calculate_hash_key oor q = - 1 then 0
              else length (filter (\<lambda>m. original_image m = p) (bucket T (calculate_hash_key oor q))))
   \<and> (p \<in> fst ` set (match_counts oor T qs) \<longleftrightarrow> 0 < collisions oor T qs p)
   \<and> collisions oor T qs p = length (colliding_pairs oor T qs p)
   \<and> set (colliding_pairs oor T qs p) =
       {(q, m). q \<in> set qs \<and> calculate_hash_key oor q \<noteq> - 1
          \<and> m \<in> set (bucket T (calculate_hash_key oor q)) \<and> original_image m = p}
   \<and> (all_entries (\<lambda>k r. calculate_hash_key oor r = k) T \<longrightarrow>
        (\<forall>e\<in>set (colliding_pairs oor T qs p).
           calculate_hash_key oor (snd e) = calculate_hash_key oor (fst e)
           \<and> calculate_hash_key oor (fst e) \<noteq> - 1 \<and> original_image (snd e) = p))"
proof -
  note mc = match_counts_props [of oor T qs p]
  have 1: "votes (match_counts oor T qs) p = word_of_nat (collisions oor T qs p)" using mc by simp
  have 2: "sint (votes (match_counts oor T qs) p) = int (collisions oor T qs p)"
    if "collisions oor T qs p < 2 ^ 31"
    unfolding 1 using that by (rule sint_word_of_nat_32)
  have 3: "votes (match_counts oor T (qs @ [q])) p
       = votes (match_counts oor T qs) p
         + word_of_nat
             (if calculate_hash_key oor q = - 1 then 0
              else length (filter (\<lambda>m. original_image m = p) (bucket T (calculate_hash_key oor q))))"
    using match_counts_props [of oor T "qs @ [q]" p] 1
    by (simp add: collisions_snoc collisions_single)
  have 4: "p \<in> fst ` set (match_counts oor T qs) \<longleftrightarrow> 0 < collisions oor T qs p" using mc by simp
  have 5: "calculate_hash_key oor (snd e) = calculate_hash_key oor (fst e)
           \<and> calculate_hash_key oor (fst e) \<noteq> - 1 \<and> original_image (snd e) = p"
    if "all_entries (\<lambda>k r. calculate_hash_key oor r
        = k) T" and "e \<in> set (colliding_pairs oor T qs p)" for e
    using that by (auto simp: set_colliding_pairs all_entries_def)
  show ?thesis
    using 1 2 3 4 5 set_colliding_pairs [of oor T qs p] by (simp add: collisions_def)
qed

theorem votes_count_colliding_records_witness:
  "collisions x86_oor example_table [example_query, zero_key] 7 = 5
   \<and> length (filter (\<lambda>m. original_image m = 7) (bucket example_table (calculate_hash_key x86_oor example_query))) = 5
   \<and> votes (match_counts x86_oor example_table [example_query, zero_key]) 7 = 5
   \<and> sint (votes (match_counts x86_oor example_table [example_query, zero_key]) 7) = 5
   \<and> all_entries (\<lambda>k r. calculate_hash_key x86_oor r = k) example_table"
proof -
  have c: "collisions x86_oor example_table [example_query, zero_key] 7 = 5" by code_simp
  have f: "length (filter (\<lambda>m. original_image m = 7)
      (bucket example_table (calculate_hash_key x86_oor example_query))) = 5" by code_simp
  have k: "all_entries (\<lambda>k r. calculate_hash_key x86_oor r = k) example_table"
    unfolding example_table_def
    by (intro Hash_keys_consistent all_entries_empty)
  from votes_count_colliding_records [of x86_oor example_table "[example_query, zero_key]" 7 zero_key]
    c f k
  show ?thesis by simp
qed

text \<open>
  C4. For a table whose records all point to an image (no null pointer, as \<open>Hash\<close> leaves
  them on a grid whose labels are in range) and while no count reaches \<open>2\<^sup>3\<^sup>1\<close>: retrieval reports that nothing matched exactly
  when no image received a vote, and the image it returns otherwise has a positive number
  of votes, the largest of all images.
\<close>

theorem retrieve_best_match_or_no_match:
  assumes "all_entries (\<lambda>k r. original_image r \<noteq> 0) T"
    and "\<forall>p. collisions oor T qs p < 2 ^ 31"
  shows "(retrieve oor T qs = NoMatchesFound \<longleftrightarrow> (\<forall>p. collisions oor T qs p = 0))
    \<and> (\<forall>p. retrieve oor T qs = BestMatch p \<longrightarrow>
          0 < collisions oor T qs p
          \<and> (\<forall>p'. collisions oor T qs p' \<le> collisions oor T qs p)
          \<and> sint (votes (match_counts oor T qs) p) = int (collisions oor T qs p))"
proof -
  let ?mc = "match_counts oor T qs"
  obtain b m where bm: "best_match_loop ?mc (0, 0) = (b, m)"
    by (cases "best_match_loop ?mc (0, 0)")
  note bp = best_match_loop_props [OF bm]
  have asc: "ascending ?mc" using match_counts_props [of oor T qs] by simp
  have r: "retrieve oor T qs = (if b \<noteq> 0 then BestMatch b else NoMatchesFound)"
    by (simp add: retrieve_def bm)
  have entry: "sint c = int (collisions oor T qs p) \<and> 0 < collisions oor T qs p"
    if "(p, c) \<in> set ?mc" for p c
  proof -
    have "p \<in> fst ` set ?mc" using that by force
    then have pos: "0 < collisions oor T qs p" using match_counts_props [of oor T qs p] by simp
    have "c = word_of_nat (collisions oor T qs p)"
      using votes_entry [OF asc that] match_counts_props [of oor T qs p] by simp
    then show ?thesis using pos assms(2) by (simp add: sint_word_of_nat_32)
  qed
  have nonnull: "p \<noteq> 0" if "0 < collisions oor T qs p" for p
    using collisions_owner [OF that] assms(1) by (auto simp: all_entries_def)
  show ?thesis
  proof (cases "\<forall>p. collisions oor T qs p = 0")
    case True
    have "?mc = []"
    proof (cases ?mc)
      case Nil
      then show ?thesis .
    next
      case (Cons e es)
      then have "fst e \<in> fst ` set ?mc" by simp
      then have "0 < collisions oor T qs (fst e)" using match_counts_props [of oor T qs "fst e"] by simp
      then show ?thesis using True by simp
    qed
    then have "b = 0" using bm by simp
    then show ?thesis using True r by simp
  next
    case False
    then obtain p0 where p0: "0 < collisions oor T qs p0" by auto
    then have "p0 \<in> fst ` set ?mc" using match_counts_props [of oor T qs p0] by simp
    then obtain c0 where c0: "(p0, c0) \<in> set ?mc" by force
    have "sint (0 :: c_int) < sint c0" using entry [OF c0] by simp
    then have "\<exists>e\<in>set ?mc. sint (0 :: c_int) < sint (snd e)" using c0 by force
    then have win: "(b, m) \<in> set ?mc" using bp by blast
    have bpos: "0 < collisions oor T qs b" and bm_val: "sint m = int (collisions oor T qs b)"
      using entry [OF win] by simp_all
    have bnz: "b \<noteq> 0" by (rule nonnull [OF bpos])
    have mx: "collisions oor T qs p' \<le> collisions oor T qs b" for p'
    proof (cases "0 < collisions oor T qs p'")
      case True
      then have "p' \<in> fst ` set ?mc" using match_counts_props [of oor T qs p'] by simp
      then obtain c' where c': "(p', c') \<in> set ?mc" by force
      have "sint c' \<le> sint m" using bp c' by force
      then show ?thesis using entry [OF c'] bm_val by simp
    next
      case False
      then show ?thesis by simp
    qed
    have vb: "sint (votes ?mc b) = int (collisions oor T qs b)"
      using votes_entry [OF asc win] bm_val by simp
    show ?thesis using False r bnz bpos mx vb by auto
  qed
qed

theorem retrieve_best_match_or_no_match_witness:
  "all_entries (\<lambda>k r. original_image r \<noteq> 0) example_table
   \<and> (\<forall>p. collisions x86_oor example_table [example_query, zero_key] p < 2 ^ 31)
   \<and> retrieve x86_oor example_table [example_query, zero_key] = BestMatch 7
   \<and> 0 < collisions x86_oor example_table [example_query, zero_key] 7
   \<and> (\<forall>p'. collisions x86_oor example_table [example_query, zero_key] p'
          \<le> collisions x86_oor example_table [example_query, zero_key] 7)
   \<and> match_counts x86_oor example_table [example_query, zero_key] = [(7, 5), (8, 1)]"
proof -
  have v1: "valid_cells row_labels 5 (grid_cells row_labels)" by code_simp
  have v2: "valid_cells example_labels 2 (grid_cells example_labels)" by code_simp
  have h1: "all_entries (\<lambda>k r. original_image r \<noteq> 0) example_table"
    unfolding example_table_def
    by (intro Hash_owner_nonnull all_entries_empty v1 v2) simp_all
  have "sum_list (map (\<lambda>q. length (bucket example_table (calculate_hash_key x86_oor q)))
      [example_query, zero_key]) = 6" by code_simp
  then have le: "collisions x86_oor example_table [example_query, zero_key] p \<le> 6" for p
    using collisions_le [of x86_oor example_table "[example_query, zero_key]" p] by simp
  have h2: "\<forall>p. collisions x86_oor example_table [example_query, zero_key] p < 2 ^ 31"
  proof
    fix p
    have "collisions x86_oor example_table [example_query, zero_key] p \<le> 6" by (rule le)
    also have "(6 :: nat) < 2 ^ 31" by simp
    finally show "collisions x86_oor example_table [example_query, zero_key] p < 2 ^ 31" .
  qed
  have r: "retrieve x86_oor example_table [example_query, zero_key] = BestMatch 7" by code_simp
  have m: "match_counts x86_oor example_table [example_query, zero_key] = [(7, 5), (8, 1)]" by code_simp
  from retrieve_best_match_or_no_match [OF h1 h2] h1 h2 r m
  show ?thesis by simp
qed




text \<open>
  C6. When every label of the grid lies inside \<open>[0, superpixel_count)\<close> and the expected
  count of each region is the number of its cells, the pass touches nothing outside the
  block of records and the pixel counts of the records \<open>Hash\<close> appends add up to
  \<open>rows \<sqdot> cols\<close>: the sum over the whole table grows by exactly that.
\<close>

theorem Hash_pixel_counts_sum_to_grid_size:
  assumes "valid_cells labels n (grid_cells labels)"
    and "\<forall>i<nat (sint n). pcs (int i)
        = word_of_nat (length (cells_of labels (grid_cells labels) i))"
  shows "(\<forall>i. i < 0 \<or> sint n \<le> i \<longrightarrow>
            pass_store oor heap img_ptr input_image labels n pcs (grid_cells labels) T i = heap i)
    \<and> table_sum (\<lambda>r. unat (pixel_count r)) (Hash oor heap img_ptr input_image labels n pcs T)
        = table_sum (\<lambda>r. unat (pixel_count r)) T
          + nat (sint (rows labels)) * nat (sint (cols labels))"
proof -
  let ?g = "grid_cells labels"
  let ?N = "nat (sint n)"
  have len: "length ?g < 2 ^ 64" by (rule length_grid_cells_less)
  have reg: "\<forall>p\<in>set ?g. region_of labels p < ?N"
    using assms(1) by (simp add: valid_cells_def valid_cell_def)
  have each: "(if fired labels pcs ?g i then unat (pcs (int i)) else 0)
      = length (cells_of labels ?g i)"
    if "i < ?N" for i
  proof -
    have "length (cells_of labels ?g i) < 2 ^ 64"
      using length_cells_of_le [of labels ?g i] len by simp
    then have "unat (pcs (int i)) = length (cells_of labels ?g i)"
      using assms(2) that by (simp add: unat_word_of_nat_64)
    then show ?thesis by (cases "cells_of labels ?g i") (simp_all add: fired_def)
  qed
  have "(\<Sum>i<?N. if fired labels pcs ?g i then unat (pcs (int i)) else 0)
      = (\<Sum>i<?N. length (cells_of labels ?g i))"
    by (rule sum.cong) (simp_all add: each)
  also have "\<dots> = length ?g" by (rule sum_cells_of [OF reg])
  finally have s: "(\<Sum>i<?N. if fired labels pcs ?g i then unat (pcs (int i)) else 0)
      = nat (sint (rows labels)) * nat (sint (cols labels))"
    by (simp add: length_grid_cells)
  show ?thesis
    using pass_table_sum [OF assms(1) len, of unat oor heap img_ptr input_image pcs T] s
      store_outside [OF assms(1), of _ oor heap img_ptr input_image pcs T]
    by (simp add: Hash_pass_table)
qed

theorem Hash_pixel_counts_sum_to_grid_size_witness:
  "valid_cells example_labels 2 (grid_cells example_labels)
   \<and> counts_ptr [2, 2] (int 0)
       = word_of_nat (length (cells_of example_labels (grid_cells example_labels) 0))
   \<and> counts_ptr [2, 2] (int 1)
       = word_of_nat (length (cells_of example_labels (grid_cells example_labels) 1))
   \<and> table_sum (\<lambda>r. unat (pixel_count r))
        (Hash x86_oor blank_heap 7 example_image example_labels 2 (counts_ptr [2, 2]) Map.empty) = 4"
proof -
  have v: "valid_cells example_labels 2 (grid_cells example_labels)" by code_simp
  have c0: "counts_ptr [2, 2] (int 0)
      = word_of_nat (length (cells_of example_labels (grid_cells example_labels) 0))"
    by code_simp
  have c1: "counts_ptr [2, 2] (int 1)
      = word_of_nat (length (cells_of example_labels (grid_cells example_labels) 1))"
    by code_simp
  have c: "\<forall>i<nat (sint (2 :: c_int)).
      counts_ptr [2, 2] (int i)
        = word_of_nat (length (cells_of example_labels (grid_cells example_labels) i))"
  proof (intro allI impI)
    fix i :: nat
    assume "i < nat (sint (2 :: c_int))"
    then have "i = 0 \<or> i = 1" by auto
    then show "counts_ptr [2, 2] (int i)
        = word_of_nat (length (cells_of example_labels (grid_cells example_labels) i))"
      using c0 c1 by auto
  qed
  have r: "nat (sint (rows example_labels)) * nat (sint (cols example_labels)) = 4"
    by (simp add: example_labels_def)
  from Hash_pixel_counts_sum_to_grid_size
    [of example_labels 2 "counts_ptr [2, 2]" x86_oor blank_heap 7 example_image Map.empty, OF v c]
    v c0 c1 r
  show ?thesis by simp
qed

text \<open>
  C7. At every point of the pass, that is after any number \<open>k\<close> of cells in the order of
  the loops, the record of a region has a non-zero pixel count exactly when a cell of the
  region has been seen, and every cell of the region seen so far has its column in
  \<open>[x_min, x_max]\<close> and its row in \<open>[y_min, y_max]\<close> of the record; a record that enters
  the table with the next cell is the record of that cell's region as it then stands.
  When the expected counts are the true ones, every record the pass over the whole grid
  has added to the table is the final record of a region that occurs, and its box holds every cell of
  the grid with that label.
\<close>

theorem Hash_bounding_box_contains_cells:
  assumes "valid_cells labels n (take k (grid_cells labels))" and "i < nat (sint n)"
  shows "(pixel_count (pass_array oor heap img_ptr input_image labels n pcs (take k (grid_cells labels)) T ! i) \<noteq> 0
           \<longleftrightarrow> cells_of labels (take k (grid_cells labels)) i \<noteq> [])
    \<and> (\<forall>p\<in>set (cells_of labels (take k (grid_cells labels)) i).
          sint (fst (x_range (pass_array oor heap img_ptr input_image labels n pcs (take k (grid_cells labels)) T ! i)))
            \<le> int (snd p)
          \<and> int (snd p)
            \<le> sint (snd (x_range (pass_array oor heap img_ptr input_image labels n pcs (take k (grid_cells labels)) T ! i)))
          \<and> sint (fst (y_range (pass_array oor heap img_ptr input_image labels n pcs (take k (grid_cells labels)) T ! i)))
            \<le> int (fst p)
          \<and> int (fst p)
            \<le> sint (snd (y_range (pass_array oor heap img_ptr input_image labels n pcs (take k (grid_cells labels)) T ! i))))
    \<and> (k < length (grid_cells labels)
          \<and> valid_cell labels (nat (sint n)) (grid_cells labels ! k) \<longrightarrow>
        pass_table oor heap img_ptr input_image labels n pcs (take (Suc k) (grid_cells labels)) T
          = pass_table oor heap img_ptr input_image labels n pcs (take k (grid_cells labels)) T
        \<or> pass_table oor heap img_ptr input_image labels n pcs (take (Suc k) (grid_cells labels)) T
          = push_back
              (pass_table oor heap img_ptr input_image labels n pcs (take k (grid_cells labels)) T)
              (calculate_hash_key oor
                 (pass_array oor heap img_ptr input_image labels n pcs (take (Suc k) (grid_cells labels)) T
                    ! region_of labels (grid_cells labels ! k)))
              (pass_array oor heap img_ptr input_image labels n pcs (take (Suc k) (grid_cells labels)) T
                 ! region_of labels (grid_cells labels ! k)))
    \<and> (valid_cells labels n (grid_cells labels)
          \<and> (\<forall>j<nat (sint n). pcs (int j) = word_of_nat (length (cells_of labels (grid_cells labels) j))) \<longrightarrow>
        (\<forall>key. \<forall>r\<in>set (bucket (Hash oor heap img_ptr input_image labels n pcs T) key).
           r \<in> set (bucket T key)
           \<or> (\<exists>j<nat (sint n). cells_of labels (grid_cells labels) j \<noteq> []
                 \<and> r = pass_array oor heap img_ptr input_image labels n pcs (grid_cells labels) T ! j
                 \<and> (\<forall>p\<in>set (cells_of labels (grid_cells labels) j).
                       sint (fst (x_range r)) \<le> int (snd p) \<and> int (snd p) \<le> sint (snd (x_range r))
                       \<and> sint (fst (y_range r)) \<le> int (fst p) \<and> int (fst p) \<le> sint (snd (y_range r))))))"
proof -
  let ?ps = "take k (grid_cells labels)"
  have len: "length ?ps < 2 ^ 64" by (rule prefix_length)
  have rc: "\<forall>p\<in>set ?ps. fst p < 2 ^ 31 \<and> snd p < 2 ^ 31" using prefix_coords by blast
  have 1: "pixel_count (pass_array oor heap img_ptr input_image labels n pcs ?ps T ! i) \<noteq> 0
      \<longleftrightarrow> cells_of labels ?ps i \<noteq> []"
    by (rule pass_nonempty_iff [OF assms len])
  have 2: "\<forall>p\<in>set (cells_of labels ?ps i).
      in_box (pass_array oor heap img_ptr input_image labels n pcs ?ps T ! i) p"
    using pass_in_box [OF assms len rc] by blast
  have 3: "pass_table oor heap img_ptr input_image labels n pcs (take (Suc k) (grid_cells labels)) T
          = pass_table oor heap img_ptr input_image labels n pcs ?ps T
        \<or> pass_table oor heap img_ptr input_image labels n pcs (take (Suc k) (grid_cells labels)) T
          = push_back (pass_table oor heap img_ptr input_image labels n pcs ?ps T)
              (calculate_hash_key oor
                 (pass_array oor heap img_ptr input_image labels n pcs (take (Suc k) (grid_cells labels)) T
                    ! region_of labels (grid_cells labels ! k)))
              (pass_array oor heap img_ptr input_image labels n pcs (take (Suc k) (grid_cells labels)) T
                 ! region_of labels (grid_cells labels ! k))"
    if "k < length (grid_cells labels)"
      and "valid_cell labels (nat (sint n)) (grid_cells labels ! k)"
  proof -
    have "valid_cells labels n (take (Suc k) (grid_cells labels))"
      using assms(1) that by (simp add: take_Suc_snoc)
    from pass_step_grid [OF this that(1), of oor heap img_ptr input_image pcs T] show ?thesis
      by (simp split: if_splits)
  qed
  have 4: "\<forall>key. \<forall>r\<in>set (bucket (Hash oor heap img_ptr input_image labels n pcs T) key).
           r \<in> set (bucket T key)
           \<or> (\<exists>j<nat (sint n). cells_of labels (grid_cells labels) j \<noteq> []
                 \<and> r = pass_array oor heap img_ptr input_image labels n pcs (grid_cells labels) T ! j
                 \<and> (\<forall>p\<in>set (cells_of labels (grid_cells labels) j). in_box r p))"
    if "valid_cells labels n (grid_cells labels)"
      and "\<forall>j<nat (sint n). pcs (int j)
          = word_of_nat (length (cells_of labels (grid_cells labels) j))"
    using Hash_records_contain_region [OF that] by blast
  have 12: "(pixel_count (pass_array oor heap img_ptr input_image labels n pcs ?ps T ! i) \<noteq> 0
      \<longleftrightarrow> cells_of labels ?ps i \<noteq> [])
    \<and> (\<forall>p\<in>set (cells_of labels ?ps i).
      in_box (pass_array oor heap img_ptr input_image labels n pcs ?ps T ! i) p)"
    using 1 2 by blast
  show ?thesis using 12 3 4 unfolding in_box_def by (intro conjI impI) blast+
qed

theorem Hash_bounding_box_contains_cells_witness:
  "valid_cells example_labels 2 (take 3 (grid_cells example_labels))
   \<and> (0 :: nat) < nat (sint (2 :: c_int))
   \<and> cells_of example_labels (take 3 (grid_cells example_labels)) 0 = [(0, 0), (0, 1)]
   \<and> x_range (pass_array x86_oor blank_heap 7 example_image example_labels 2 (counts_ptr [2, 2])
        (take 3 (grid_cells example_labels)) Map.empty ! 0) = (0, 1)
   \<and> y_range (pass_array x86_oor blank_heap 7 example_image example_labels 2 (counts_ptr [2, 2])
        (take 3 (grid_cells example_labels)) Map.empty ! 0) = (0, 0)
   \<and> pixel_count (pass_array x86_oor blank_heap 7 example_image example_labels 2 (counts_ptr [2, 2])
        (take 3 (grid_cells example_labels)) Map.empty ! 0) \<noteq> 0"
proof -
  have v: "valid_cells example_labels 2 (take 3 (grid_cells example_labels))" by code_simp
  have i: "(0 :: nat) < nat (sint (2 :: c_int))" by simp
  have c: "cells_of example_labels (take 3 (grid_cells example_labels)) 0 = [(0, 0), (0, 1)]" by code_simp
  have x: "x_range (pass_array x86_oor blank_heap 7 example_image example_labels 2 (counts_ptr [2, 2])
        (take 3 (grid_cells example_labels)) Map.empty ! 0) = (0, 1)" by code_simp
  have y: "y_range (pass_array x86_oor blank_heap 7 example_image example_labels 2 (counts_ptr [2, 2])
        (take 3 (grid_cells example_labels)) Map.empty ! 0) = (0, 0)" by code_simp
  from Hash_bounding_box_contains_cells
      [OF v i, of x86_oor blank_heap 7 example_image "counts_ptr [2, 2]" Map.empty] v i c x y
  show ?thesis by simp
qed

text \<open>
  C8. The key is the sentinel \<open>-1\<close> exactly when the pixel count of the record is zero. A
  region none of whose cells has been visited keeps the zeroed record, with pixel count
  zero. \<open>Hash\<close> appends only records with a non-zero pixel count, whatever the labels
  are: a table all of whose records have one keeps that property, a table that starts
  empty has it, and the zeroed record of a region that never occurs is in no bucket.
\<close>

theorem sentinel_iff_empty_and_table_records_nonempty:
  "(calculate_hash_key oor key = - 1 \<longleftrightarrow> pixel_count key = 0)
   \<and> (valid_cells labels n ps \<and> i < nat (sint n) \<and> cells_of labels ps i = [] \<longrightarrow>
        pass_array oor heap img_ptr input_image labels n pcs ps T ! i = zero_key
        \<and> pixel_count (pass_array oor heap img_ptr input_image labels n pcs ps T ! i) = 0)
   \<and> (all_entries (\<lambda>k r. pixel_count r \<noteq> 0) T \<longrightarrow>
        all_entries (\<lambda>k r. pixel_count r \<noteq> 0) (Hash oor heap img_ptr input_image labels n pcs T))
   \<and> all_entries (\<lambda>k r. pixel_count r \<noteq> 0) (Hash oor heap img_ptr input_image labels n pcs Map.empty)
   \<and> (valid_cells labels n (grid_cells labels) \<and> i < nat (sint n)
        \<and> cells_of labels (grid_cells labels) i = [] \<longrightarrow>
       (\<forall>k. pass_array oor heap img_ptr input_image labels n pcs (grid_cells labels) Map.empty ! i
          \<notin> set (bucket (Hash oor heap img_ptr input_image labels n pcs Map.empty) k)))"
proof -
  have keep: "all_entries (\<lambda>k r. pixel_count r \<noteq> 0) (Hash oor heap img_ptr input_image labels n pcs T')"
    if "all_entries (\<lambda>k r. pixel_count r \<noteq> 0) T'" for T'
    using Hash_loop_entries [OF that, of oor img_ptr input_image labels pcs "grid_cells labels"
        "array_ptr (replicate (nat (sint n)) zero_key) heap"]
    by (simp add: Hash_def Hash_pass_def)
  have e: "all_entries (\<lambda>k r. pixel_count r \<noteq> 0) Map.empty"
    by (simp add: all_entries_def bucket_def)
  have z: "pass_array oor heap img_ptr input_image labels n pcs ps T ! i = zero_key
        \<and> pixel_count (pass_array oor heap img_ptr input_image labels n pcs ps T ! i) = 0"
    if "valid_cells labels n ps" "i < nat (sint n)" "cells_of labels ps i = []"
    using pass_untouched [OF that, of oor heap img_ptr input_image pcs T] by (simp add: zero_key_def)
  have never: "pass_array oor heap img_ptr input_image labels n pcs (grid_cells labels) Map.empty ! i
          \<notin> set (bucket (Hash oor heap img_ptr input_image labels n pcs Map.empty) k)"
    if "valid_cells labels n (grid_cells labels)" "i < nat (sint n)"
      "cells_of labels (grid_cells labels) i = []" for k
  proof
    assume "pass_array oor heap img_ptr input_image labels n pcs (grid_cells labels) Map.empty ! i
          \<in> set (bucket (Hash oor heap img_ptr input_image labels n pcs Map.empty) k)"
    then have "pixel_count (pass_array oor heap img_ptr input_image labels n pcs (grid_cells labels) Map.empty ! i) \<noteq> 0"
      using keep [OF e] by (auto simp: all_entries_def)
    moreover have "pixel_count (pass_array oor heap img_ptr input_image labels n pcs (grid_cells labels) Map.empty ! i) = 0"
      using pass_untouched [OF that, of oor heap img_ptr input_image pcs Map.empty] by (simp add: zero_key_def)
    ultimately show False by simp
  qed
  show ?thesis
    using key_sentinel_iff [of oor key] z keep keep [OF e] never by blast
qed

theorem sentinel_iff_empty_and_table_records_nonempty_witness:
  "valid_cells example_labels 3 (grid_cells example_labels)
   \<and> (2 :: nat) < nat (sint (3 :: c_int))
   \<and> cells_of example_labels (grid_cells example_labels) 2 = []
   \<and> all_entries (\<lambda>k r. pixel_count r \<noteq> 0) Map.empty
   \<and> pixel_count (pass_array x86_oor blank_heap 7 example_image example_labels 3 (counts_ptr [2, 2, 0])
        (grid_cells example_labels) Map.empty ! 2) = 0
   \<and> calculate_hash_key x86_oor zero_key = - 1
   \<and> all_entries (\<lambda>k r. pixel_count r \<noteq> 0)
        (Hash x86_oor blank_heap 7 example_image example_labels 3 (counts_ptr [2, 2, 0]) Map.empty)"
proof -
  have v: "valid_cells example_labels 3 (grid_cells example_labels)" by code_simp
  have i: "(2 :: nat) < nat (sint (3 :: c_int))" by simp
  have c: "cells_of example_labels (grid_cells example_labels) 2 = []" by code_simp
  have e: "all_entries (\<lambda>k r. pixel_count r \<noteq> 0) Map.empty"
    by (simp add: all_entries_def bucket_def)
  have z: "pixel_count zero_key = 0" by (simp add: zero_key_def)
  from sentinel_iff_empty_and_table_records_nonempty
    [of x86_oor zero_key example_labels 3 "grid_cells example_labels" 2 blank_heap 7 example_image
        "counts_ptr [2, 2, 0]" Map.empty]
    v i c e z
  show ?thesis by simp
qed

text \<open>
  C9. For a grid of at most \<open>3840 \<sqdot> 2160\<close> cells the three colour sums of every record
  never wrap, at any point of the pass: read as signed numbers they are the true sums of
  the channel over the cells of the region seen so far, between \<open>0\<close> and
  \<open>255 \<sqdot> 3840 \<sqdot> 2160\<close>, which is below \<open>2\<^sup>3\<^sup>1\<close> and so inside \<^verbatim>\<open>signed long\<close> of either
  width.
\<close>

theorem Hash_color_sums_do_not_overflow:
  assumes "valid_cells labels n (take k (grid_cells labels))" and "i < nat (sint n)"
    and "nat (sint (rows labels)) * nat (sint (cols labels)) \<le> 3840 * 2160"
  shows "sint (l_tot (pass_array oor heap img_ptr input_image labels n pcs (take k (grid_cells labels)) T ! i))
           = int (channel_sum fst input_image (cells_of labels (take k (grid_cells labels)) i))
    \<and> sint (a_tot (pass_array oor heap img_ptr input_image labels n pcs (take k (grid_cells labels)) T ! i))
           = int (channel_sum (\<lambda>v. fst (snd v)) input_image (cells_of labels (take k (grid_cells labels)) i))
    \<and> sint (b_tot (pass_array oor heap img_ptr input_image labels n pcs (take k (grid_cells labels)) T ! i))
           = int (channel_sum (\<lambda>v. snd (snd v)) input_image (cells_of labels (take k (grid_cells labels)) i))
    \<and> 0 \<le> sint (l_tot (pass_array oor heap img_ptr input_image labels n pcs (take k (grid_cells labels)) T ! i))
    \<and> sint (l_tot (pass_array oor heap img_ptr input_image labels n pcs (take k (grid_cells labels)) T ! i))
         \<le> 255 * 3840 * 2160
    \<and> 0 \<le> sint (a_tot (pass_array oor heap img_ptr input_image labels n pcs (take k (grid_cells labels)) T ! i))
    \<and> sint (a_tot (pass_array oor heap img_ptr input_image labels n pcs (take k (grid_cells labels)) T ! i))
         \<le> 255 * 3840 * 2160
    \<and> 0 \<le> sint (b_tot (pass_array oor heap img_ptr input_image labels n pcs (take k (grid_cells labels)) T ! i))
    \<and> sint (b_tot (pass_array oor heap img_ptr input_image labels n pcs (take k (grid_cells labels)) T ! i))
         \<le> 255 * 3840 * 2160
    \<and> (255 * 3840 * 2160 :: int) < 2 ^ 31"
proof -
  let ?ps = "take k (grid_cells labels)"
  let ?cs = "cells_of labels ?ps i"
  have "length ?cs \<le> length ?ps" by (rule length_cells_of_le)
  also have "\<dots> \<le> length (grid_cells labels)" by simp
  also have "\<dots> \<le> 3840 * 2160" using assms(3) by (simp add: length_grid_cells)
  finally have n: "length ?cs \<le> 3840 * 2160" .
  have bound: "channel_sum ch input_image ?cs \<le> 255 * 3840 * 2160" for ch
  proof -
    have "channel_sum ch input_image ?cs \<le> 255 * length ?cs" by (rule channel_sum_le)
    also have "\<dots> \<le> 255 * (3840 * 2160)" using n by (rule mult_le_mono2)
    finally show ?thesis by simp
  qed
  have small: "channel_sum ch input_image ?cs < 2 ^ 63" for ch
    using bound [of ch] by simp
  have ib: "int (channel_sum ch input_image ?cs) \<le> 255 * 3840 * 2160" for ch
    using bound [of ch] by linarith
  note cs = pass_color_sums [OF assms(1) assms(2), of oor heap img_ptr input_image pcs T]
  show ?thesis
    unfolding cs
    using ib [of fst] ib [of "\<lambda>v. fst (snd v)"] ib [of "\<lambda>v. snd (snd v)"]
    by (simp add: sint_word_of_nat_64 [OF small])
qed

theorem Hash_color_sums_do_not_overflow_witness:
  "valid_cells example_labels 2 (take 4 (grid_cells example_labels))
   \<and> (1 :: nat) < nat (sint (2 :: c_int))
   \<and> nat (sint (rows example_labels)) * nat (sint (cols example_labels)) \<le> 3840 * 2160
   \<and> channel_sum fst example_image (cells_of example_labels (take 4 (grid_cells example_labels)) 1) = 400
   \<and> sint (l_tot (pass_array x86_oor blank_heap 7 example_image example_labels 2 (counts_ptr [2, 2])
        (take 4 (grid_cells example_labels)) Map.empty ! 1)) = 400"
proof -
  have v: "valid_cells example_labels 2 (take 4 (grid_cells example_labels))" by code_simp
  have i: "(1 :: nat) < nat (sint (2 :: c_int))" by simp
  have r: "nat (sint (rows example_labels)) * nat (sint (cols example_labels)) \<le> 3840 * 2160"
    by (simp add: example_labels_def)
  have c: "channel_sum fst example_image (cells_of example_labels (take 4 (grid_cells example_labels)) 1) = 400"
    by code_simp
  from Hash_color_sums_do_not_overflow
      [OF v i r, of x86_oor blank_heap 7 example_image "counts_ptr [2, 2]" Map.empty] v i r c
  show ?thesis by simp
qed

text \<open>
  C10. Whatever the expected counts are, a pass appends the record of a region at most
  once. The step of cell number \<open>k\<close> appends the record of the cell's region exactly when
  the running count of the region, that cell included, is the expected count, and leaves
  the table alone otherwise; it leaves it alone when the count had reached the expected
  count before; of two steps for cells of the same region at most one appends; and the
  number of records appended so far is the number of regions whose running count has
  reached the expected count.
\<close>

theorem Hash_inserts_each_region_at_most_once:
  assumes "valid_cells labels n (take (Suc k) (grid_cells labels))"
    and "k < length (grid_cells labels)"
  shows "pass_table oor heap img_ptr input_image labels n pcs (take (Suc k) (grid_cells labels)) T =
       (if length (cells_of labels (take (Suc k) (grid_cells labels)) (region_of labels (grid_cells labels ! k)))
             = unat (pcs (int (region_of labels (grid_cells labels ! k))))
        then push_back
            (pass_table oor heap img_ptr input_image labels n pcs (take k (grid_cells labels)) T)
               (calculate_hash_key oor
                  (pass_array oor heap img_ptr input_image labels n pcs (take (Suc k) (grid_cells labels)) T
                     ! region_of labels (grid_cells labels ! k)))
               (pass_array oor heap img_ptr input_image labels n pcs (take (Suc k) (grid_cells labels)) T
                  ! region_of labels (grid_cells labels ! k))
        else pass_table oor heap img_ptr input_image labels n pcs (take k (grid_cells labels)) T)
    \<and> (unat (pcs (int (region_of labels (grid_cells labels ! k))))
          \<le> length (cells_of labels (take k (grid_cells labels)) (region_of labels (grid_cells labels ! k)))
        \<longrightarrow> pass_table oor heap img_ptr input_image labels n pcs (take (Suc k) (grid_cells labels)) T
            = pass_table oor heap img_ptr input_image labels n pcs (take k (grid_cells labels)) T)
    \<and> (\<forall>k'<k. region_of labels (grid_cells labels ! k') = region_of labels (grid_cells labels ! k) \<longrightarrow>
          pass_table oor heap img_ptr input_image labels n pcs (take (Suc k') (grid_cells labels)) T
            = pass_table oor heap img_ptr input_image labels n pcs (take k' (grid_cells labels)) T
          \<or> pass_table oor heap img_ptr input_image labels n pcs (take (Suc k) (grid_cells labels)) T
            = pass_table oor heap img_ptr input_image labels n pcs (take k (grid_cells labels)) T)
    \<and> table_sum (\<lambda>r. 1) (pass_table oor heap img_ptr input_image labels n pcs (take (Suc k) (grid_cells labels)) T)
        = table_sum (\<lambda>r. 1) T
          + card {i. i < nat (sint n) \<and> fired labels pcs (take (Suc k) (grid_cells labels)) i}"
proof -
  let ?g = "grid_cells labels"
  let ?j = "region_of labels (?g ! k)"
  let ?e = "unat (pcs (int ?j))"
  note step = pass_step_grid [OF assms, of oor heap img_ptr input_image pcs T]
  have grow: "length (cells_of labels (take (Suc k) ?g) ?j)
      = Suc (length (cells_of labels (take k ?g) ?j))"
    by (simp add: take_Suc_snoc [OF assms(2)] cells_of_snoc)
  have 2: "pass_table oor heap img_ptr input_image labels n pcs (take (Suc k) ?g) T
            = pass_table oor heap img_ptr input_image labels n pcs (take k ?g) T"
    if "?e \<le> length (cells_of labels (take k ?g) ?j)"
    using that grow step by simp
  have 3: "pass_table oor heap img_ptr input_image labels n pcs (take (Suc k') ?g) T
            = pass_table oor heap img_ptr input_image labels n pcs (take k' ?g) T
          \<or> pass_table oor heap img_ptr input_image labels n pcs (take (Suc k) ?g) T
            = pass_table oor heap img_ptr input_image labels n pcs (take k ?g) T"
    if "k' < k" and same: "region_of labels (?g ! k') = ?j" for k'
  proof (cases "length (cells_of labels (take (Suc k') ?g) ?j) = ?e")
    case True
    have "length (cells_of labels (take (Suc k') ?g) ?j) \<le> length (cells_of labels (take k ?g) ?j)"
      using that(1) by (intro cells_of_take_mono) simp
    then have "?e \<le> length (cells_of labels (take k ?g) ?j)" using True by simp
    then show ?thesis using 2 by simp
  next
    case False
    have v': "valid_cells labels n (take (Suc k') ?g)"
      using valid_cells_take [OF assms(1), of "Suc k'"] that(1) by simp
    have l': "k' < length ?g" using that(1) assms(2) by simp
    from pass_step_grid [OF v' l', of oor heap img_ptr input_image pcs T] False same
    show ?thesis by simp
  qed
  have 4: "table_sum (\<lambda>r. 1)
      (pass_table oor heap img_ptr input_image labels n pcs (take (Suc k) ?g) T)
        = table_sum (\<lambda>r. 1) T + card {i. i < nat (sint n) \<and> fired labels pcs (take (Suc k) ?g) i}"
    by (rule pass_table_count [OF assms(1) prefix_length])
  show ?thesis using step 2 3 4 by blast
qed

theorem Hash_inserts_each_region_at_most_once_witness:
  "valid_cells example_labels 2 (take (Suc 1) (grid_cells example_labels))
   \<and> 1 < length (grid_cells example_labels)
   \<and> region_of example_labels (grid_cells example_labels ! 0) = region_of example_labels (grid_cells example_labels ! 1)
   \<and> unat (counts_ptr [1, 5] (int (region_of example_labels (grid_cells example_labels ! 1))))
        \<le> length (cells_of example_labels (take 1 (grid_cells example_labels))
             (region_of example_labels (grid_cells example_labels ! 1)))
   \<and> pass_table x86_oor blank_heap 7 example_image example_labels 2 (counts_ptr [1, 5]) (take (Suc 1) (grid_cells example_labels)) Map.empty
       = pass_table x86_oor blank_heap 7 example_image example_labels 2 (counts_ptr [1, 5]) (take 1 (grid_cells example_labels)) Map.empty
   \<and> bucket (pass_table x86_oor blank_heap 7 example_image example_labels 2 (counts_ptr [1, 5]) (take 1 (grid_cells example_labels)) Map.empty) 1700
       = [\<lparr>l_tot = 10, a_tot = 20, b_tot = 30, x_range = (0, 0), y_range = (0, 0),
            original_image = 7, pixel_count = 1\<rparr>]"
proof -
  have v: "valid_cells example_labels 2 (take (Suc 1) (grid_cells example_labels))" by code_simp
  have l: "1 < length (grid_cells example_labels)" by code_simp
  have s: "region_of example_labels (grid_cells example_labels ! 0)
      = region_of example_labels (grid_cells example_labels ! 1)" by code_simp
  have e: "unat (counts_ptr [1, 5] (int (region_of example_labels (grid_cells example_labels ! 1))))
        \<le> length (cells_of example_labels (take 1 (grid_cells example_labels))
             (region_of example_labels (grid_cells example_labels ! 1)))" by code_simp
  have b: "bucket (pass_table x86_oor blank_heap 7 example_image example_labels 2 (counts_ptr [1, 5]) (take 1 (grid_cells example_labels)) Map.empty) 1700
       = [\<lparr>l_tot = 10, a_tot = 20, b_tot = 30, x_range = (0, 0), y_range = (0, 0),
            original_image = 7, pixel_count = 1\<rparr>]" by code_simp
  from Hash_inserts_each_region_at_most_once
      [OF v l, of x86_oor blank_heap 7 example_image "counts_ptr [1, 5]" Map.empty] e
  have "pass_table x86_oor blank_heap 7 example_image example_labels 2 (counts_ptr [1, 5]) (take (Suc 1) (grid_cells example_labels)) Map.empty
       = pass_table x86_oor blank_heap 7 example_image example_labels 2 (counts_ptr [1, 5]) (take 1 (grid_cells example_labels)) Map.empty"
    by blast
  with v l s e b show ?thesis by blast
qed

end
